theory Spec2Isabelle
  imports Main "HOL-Library.List_Lexorder" "HOL-Library.Sublist"
begin

section \<open>The AST node interface\<close>

text \<open>
  Modelled from the spec: the node types \<open>Blockly.ASTNode.types\<close> are declared outside
  \<open>src/\<close>. The cursor and the speaker read \<open>BLOCK\<close>, \<open>FIELD\<close>, \<open>OUTPUT\<close>, \<open>PREVIOUS\<close>,
  \<open>WORKSPACE\<close> and \<open>STACK\<close>; \<open>INPUT\<close> and \<open>NEXT\<close> are the node types of an input-value
  slot and of a next-statement connection.
\<close>

datatype ast_type = BLOCK | FIELD | OUTPUT | INPUT | NEXT | PREVIOUS | WORKSPACE | STACK

text \<open>
  Modelled from the spec: the connection kinds \<open>Blockly.INPUT_VALUE\<close> and
  \<open>Blockly.NEXT_STATEMENT\<close> are constants declared outside \<open>src/\<close>; they are distinct
  numbers.
\<close>

datatype connection_kind = INPUT_VALUE | OUTPUT_VALUE | NEXT_STATEMENT | PREVIOUS_STATEMENT

text \<open>
  The property \<open>location.type\<close>: the name of the block kind when the location is a block
  (\<open>'controls_if'\<close>), the connection kind when it is a connection, and undefined for a
  field or a workspace coordinate. \<open>speaker.js\<close> compares it with \<open>==\<close> against one name
  and two connection kinds. Assumption: a name and a connection kind are unequal. The
  \<open>==\<close> of JavaScript converts a string to a number before it compares the two, so a
  block whose kind is named like the number of a connection kind (\<open>'1'\<close>, \<open>'3'\<close>) would
  compare equal to it; no such block kind is modelled, and \<open>ltype\<close> is then to be read as
  the outcome of the comparisons of the code.
\<close>

datatype location_type = BlockType string | ConnectionType connection_kind | NoType

text \<open>
  The property \<open>location.outputConnection\<close>, which \<open>validNode_\<close> compares with
  \<open>=== null\<close>: \<open>null\<close>, a connection, or undefined when the location has no such property.
\<close>

datatype output_connection = Null | Connection | Undefined

text \<open>
  A location, as far as the code reads it: \<open>type\<close>, \<open>outputConnection\<close>, the result of
  \<open>toString()\<close> and, for a field, the result of \<open>getDisplayText_()\<close>.
\<close>

record location =
  ltype :: location_type
  outputConnection :: output_connection
  loc_toString :: string
  getDisplayText :: string

text \<open>
  A source block, as far as \<open>speaker.js\<close> reads it: \<open>getSurroundParent()\<close> (\<open>None\<close> is
  \<open>null\<close>) and \<open>toString()\<close>.
\<close>

datatype block = Block (getSurroundParent: "block option") (toString: string)

text \<open>
  The interface the code consumes from a node \<open>'n\<close>: the four structural moves
  \<open>next()\<close>, \<open>prev()\<close>, \<open>in()\<close>, \<open>out()\<close> (\<open>None\<close> is \<open>null\<close>), and \<open>getType()\<close>,
  \<open>getLocation()\<close>, \<open>getSourceBlock()\<close>. The implementation of the nodes is outside
  \<open>src/\<close>, so it is a parameter of every function below.
\<close>

record 'n ast =
  node_next :: "'n \<Rightarrow> 'n option"
  node_prev :: "'n \<Rightarrow> 'n option"
  node_in :: "'n \<Rightarrow> 'n option"
  node_out :: "'n \<Rightarrow> 'n option"
  getType :: "'n \<Rightarrow> ast_type"
  getLocation :: "'n \<Rightarrow> location"
  getSourceBlock :: "'n \<Rightarrow> block option"

section \<open>The line cursor (\<open>demos/keyboard_nav/line_cursor.js\<close>)\<close>

text \<open>
  A name cannot end with an underscore here, so the private methods \<open>validNode_\<close>,
  \<open>validInNode_\<close>, \<open>findSiblingOrParent_\<close>, \<open>getNextNode_\<close>, \<open>getRightMostChild_\<close>,
  \<open>getPreviousNode_\<close> and \<open>nodeToText_\<close> are written without it.
\<close>

fun validNode :: "'n ast \<Rightarrow> 'n option \<Rightarrow> bool" where
  "validNode t None = False"
| "validNode t (Some node) =
     (getType t node = BLOCK \<and> outputConnection (getLocation t node) = Null)"

fun validInNode :: "'n ast \<Rightarrow> 'n option \<Rightarrow> bool" where
  "validInNode t None = False"
| "validInNode t (Some node) = (getType t node = FIELD)"

text \<open>
  The recursive functions return \<open>None\<close> when the recursion of the source does not end
  (which it need not on a structure with a cycle) and \<open>Some r\<close> when it returns \<open>r\<close>;
  \<open>r = None\<close> is the result \<open>null\<close>.
\<close>

partial_function (option) findSiblingOrParent :: "'n ast \<Rightarrow> 'n option \<Rightarrow> 'n option option"
where
  "findSiblingOrParent t node =
     (case node of
        None \<Rightarrow> Some None
      | Some n \<Rightarrow>
          (case node_next t n of
             Some nextNode \<Rightarrow> Some (Some nextNode)
           | None \<Rightarrow> findSiblingOrParent t (node_out t n)))"

partial_function (option) getNextNode ::
  "'n ast \<Rightarrow> ('n option \<Rightarrow> bool) \<Rightarrow> 'n option \<Rightarrow> 'n option option"
where
  "getNextNode t isValid node =
     (case node of
        None \<Rightarrow> Some None
      | Some n \<Rightarrow>
          (let newNode = (case node_in t n of Some c \<Rightarrow> Some c | None \<Rightarrow> node_next t n) in
           if isValid newNode then Some newNode
           else if newNode \<noteq> None then getNextNode t isValid newNode
           else
             (case findSiblingOrParent t (node_out t n) of
                None \<Rightarrow> None
              | Some siblingOrParent \<Rightarrow>
                  if isValid siblingOrParent then Some siblingOrParent
                  else if siblingOrParent \<noteq> None then getNextNode t isValid siblingOrParent
                  else Some None)))"

text \<open>The \<open>while\<close> loop of \<open>getRightMostChild_\<close>: follow \<open>next()\<close> to the last sibling.\<close>

partial_function (option) lastSibling :: "'n ast \<Rightarrow> 'n \<Rightarrow> 'n option"
where
  "lastSibling t newNode =
     (case node_next t newNode of
        None \<Rightarrow> Some newNode
      | Some s \<Rightarrow> lastSibling t s)"

partial_function (option) getRightMostChild :: "'n ast \<Rightarrow> 'n \<Rightarrow> 'n option"
where
  "getRightMostChild t node =
     (case node_in t node of
        None \<Rightarrow> Some node
      | Some c \<Rightarrow>
          (case lastSibling t c of
             None \<Rightarrow> None
           | Some newNode \<Rightarrow> getRightMostChild t newNode))"

partial_function (option) getPreviousNode ::
  "'n ast \<Rightarrow> ('n option \<Rightarrow> bool) \<Rightarrow> 'n option \<Rightarrow> 'n option option"
where
  "getPreviousNode t isValid node =
     (case node of
        None \<Rightarrow> Some None
      | Some n \<Rightarrow>
          (case (case node_prev t n of
                   Some p \<Rightarrow> map_option Some (getRightMostChild t p)
                 | None \<Rightarrow> Some (node_out t n)) of
             None \<Rightarrow> None
           | Some newNode \<Rightarrow>
               if isValid newNode then Some newNode
               else if newNode \<noteq> None then getPreviousNode t isValid newNode
               else Some None))"

declare findSiblingOrParent.simps [code] getNextNode.simps [code] lastSibling.simps [code]
  getRightMostChild.simps [code] getPreviousNode.simps [code]

text \<open>
  Modelled from the spec: \<open>getCurNode\<close> and \<open>setCurNode\<close> belong to the base class
  \<open>Blockly.Cursor\<close>, outside \<open>src/\<close>. The cursor holds \<open>curNode\<close>, the focused node or
  none; \<open>setCurNode\<close> stores the node it is given.
\<close>

record 'n cursor =
  curNode :: "'n option"

definition getCurNode :: "'n cursor \<Rightarrow> 'n option" where
  "getCurNode c = curNode c"

definition setCurNode :: "'n option \<Rightarrow> 'n cursor \<Rightarrow> 'n cursor" where
  "setCurNode newNode c = c\<lparr>curNode := newNode\<rparr>"

text \<open>
  The four operations \<open>next\<close>, \<open>in\<close>, \<open>prev\<close> and \<open>out\<close> have one body, which differs
  only in the search and the predicate: \<open>cursor_move\<close>. They return the node they return
  in the source together with the cursor after the call; \<open>None\<close> when the search does
  not end.
\<close>

definition cursor_move ::
  "('n option \<Rightarrow> 'n option option) \<Rightarrow> 'n cursor \<Rightarrow> ('n option \<times> 'n cursor) option" where
  "cursor_move search c =
     (case getCurNode c of
        None \<Rightarrow> Some (None, c)
      | Some n \<Rightarrow>
          (case search (Some n) of
             None \<Rightarrow> None
           | Some newNode \<Rightarrow>
               Some (newNode, if newNode \<noteq> None then setCurNode newNode c else c)))"

definition cursor_next :: "'n ast \<Rightarrow> 'n cursor \<Rightarrow> ('n option \<times> 'n cursor) option" where
  "cursor_next t c = cursor_move (getNextNode t (validNode t)) c"

definition cursor_in :: "'n ast \<Rightarrow> 'n cursor \<Rightarrow> ('n option \<times> 'n cursor) option" where
  "cursor_in t c = cursor_move (getNextNode t (validInNode t)) c"

definition cursor_prev :: "'n ast \<Rightarrow> 'n cursor \<Rightarrow> ('n option \<times> 'n cursor) option" where
  "cursor_prev t c = cursor_move (getPreviousNode t (validNode t)) c"

definition cursor_out :: "'n ast \<Rightarrow> 'n cursor \<Rightarrow> ('n option \<times> 'n cursor) option" where
  "cursor_out t c = cursor_move (getPreviousNode t (validInNode t)) c"

section \<open>The speaker (\<open>core/keyboard_nav/speaker.js\<close>)\<close>

text \<open>
  Reading a property of \<open>null\<close> throws a \<open>TypeError\<close>. The parameter \<open>curNode\<close> of
  \<open>nodeToText_\<close> is \<open>currentNode\<close> here (\<open>curNode\<close> is the field of the cursor).
\<close>

datatype error = TypeError

text \<open>
  The text so far, followed by \<open>curNode.getSourceBlock().toString()\<close>: the three lines
  \<open>text += ...; text += curNode.getSourceBlock().toString()\<close> of \<open>nodeToText_\<close>.
\<close>

definition sourceBlockText :: "'n ast \<Rightarrow> 'n \<Rightarrow> string \<Rightarrow> error + string" where
  "sourceBlockText t node text =
     (case getSourceBlock t node of
        None \<Rightarrow> Inl TypeError
      | Some b \<Rightarrow> Inr (text @ toString b))"

definition nodeToText :: "'n ast \<Rightarrow> 'n option \<Rightarrow> 'n option \<Rightarrow> error + string" where
  "nodeToText t oldNode currentNode =
     (case currentNode of
        None \<Rightarrow> Inl TypeError
      | Some cur \<Rightarrow>
          (let location = getLocation t cur in
           if getType t cur = BLOCK then
             (if ltype location = BlockType ''controls_if'' then Inr ''if 6 = 5''
              else
                (case getSourceBlock t cur of
                   None \<Rightarrow> Inl TypeError
                 | Some b \<Rightarrow>
                     if getSurroundParent b \<noteq> None
                     then Inr (''inside if. '' @ loc_toString (getLocation t cur))
                     else
                       (case oldNode of
                          None \<Rightarrow> Inr (loc_toString (getLocation t cur))
                        | Some old \<Rightarrow>
                            (case getSourceBlock t old of
                               None \<Rightarrow> Inl TypeError
                             | Some ob \<Rightarrow>
                                 if getSurroundParent ob \<noteq> None
                                 then Inr (''outside if. '' @ loc_toString (getLocation t cur))
                                 else Inr (loc_toString (getLocation t cur))))))
           else if getType t cur = OUTPUT then sourceBlockText t cur []
           else if ltype (getLocation t cur) = ConnectionType INPUT_VALUE
             then sourceBlockText t cur '' an input value for block ''
           else if ltype (getLocation t cur) = ConnectionType NEXT_STATEMENT
             then sourceBlockText t cur '' a next connection for block ''
           else if getType t cur = PREVIOUS
             then sourceBlockText t cur '' a previous connection for block ''
           else if getType t cur = FIELD then Inr (getDisplayText location @ '' '')
           else if getType t cur = WORKSPACE then Inr '' a workspace coordinate''
           else if getType t cur = STACK then Inr '' a stack of blocks''
           else Inr []))"

text \<open>
  The precondition of \<open>nodeToText_\<close> in the words of the claim: the current node needs a
  source block when it is a \<open>BLOCK\<close> other than a conditional, an \<open>OUTPUT\<close>, a
  \<open>PREVIOUS\<close>, or when its location is an input-value slot or a next-statement
  connection; a present old node needs one when the current node is such a \<open>BLOCK\<close> and
  its source block is not nested.
\<close>

definition needsSourceBlock :: "'n ast \<Rightarrow> 'n \<Rightarrow> bool" where
  "needsSourceBlock t cur =
     ((getType t cur = BLOCK \<and> ltype (getLocation t cur) \<noteq> BlockType ''controls_if'')
      \<or> getType t cur = OUTPUT \<or> getType t cur = PREVIOUS
      \<or> ltype (getLocation t cur) = ConnectionType INPUT_VALUE
      \<or> ltype (getLocation t cur) = ConnectionType NEXT_STATEMENT)"

definition needsOldSourceBlock :: "'n ast \<Rightarrow> 'n \<Rightarrow> bool" where
  "needsOldSourceBlock t cur =
     (getType t cur = BLOCK \<and> ltype (getLocation t cur) \<noteq> BlockType ''controls_if''
      \<and> (\<exists>b. getSourceBlock t cur = Some b \<and> getSurroundParent b = None))"

definition speaker_precondition :: "'n ast \<Rightarrow> 'n option \<Rightarrow> 'n \<Rightarrow> bool" where
  "speaker_precondition t oldNode cur =
     ((needsSourceBlock t cur \<longrightarrow> getSourceBlock t cur \<noteq> None)
      \<and> (needsOldSourceBlock t cur \<longrightarrow>
           (case oldNode of None \<Rightarrow> True | Some old \<Rightarrow> getSourceBlock t old \<noteq> None)))"

section \<open>The traversal in the words of the specification\<close>

text \<open>
  The forward step as the specification describes it. \<open>ascend t n r\<close>: from \<open>n\<close>, taking
  \<open>out()\<close> repeatedly and trying the \<open>next()\<close> of each ancestor reaches the sibling \<open>r\<close>,
  or \<open>r\<close> is none and the root is exhausted.
\<close>

inductive ascend :: "'n ast \<Rightarrow> 'n \<Rightarrow> 'n option \<Rightarrow> bool" for t :: "'n ast" where
  ascend_root: "node_out t n = None \<Longrightarrow> ascend t n None"
| ascend_sibling: "node_out t n = Some a \<Longrightarrow> node_next t a = Some s \<Longrightarrow> ascend t n (Some s)"
| ascend_parent: "node_out t n = Some a \<Longrightarrow> node_next t a = None \<Longrightarrow> ascend t a r \<Longrightarrow> ascend t n r"

text \<open>
  \<open>successor t n r\<close>: the immediate successor of \<open>n\<close> is \<open>in()\<close> if present, else
  \<open>next()\<close>, else what ascending gives.
\<close>

inductive successor :: "'n ast \<Rightarrow> 'n \<Rightarrow> 'n option \<Rightarrow> bool" for t :: "'n ast" where
  successor_in: "node_in t n = Some c \<Longrightarrow> successor t n (Some c)"
| successor_next: "node_in t n = None \<Longrightarrow> node_next t n = Some s \<Longrightarrow> successor t n (Some s)"
| successor_ascend: "node_in t n = None \<Longrightarrow> node_next t n = None \<Longrightarrow> ascend t n r \<Longrightarrow> successor t n r"

text \<open>
  \<open>forward t isValid n r\<close>: stepping from \<open>n\<close> and skipping the nodes that fail the
  predicate yields \<open>r\<close>.
\<close>

inductive forward :: "'n ast \<Rightarrow> ('n option \<Rightarrow> bool) \<Rightarrow> 'n \<Rightarrow> 'n option \<Rightarrow> bool"
  for t :: "'n ast" and isValid :: "'n option \<Rightarrow> bool" where
  forward_none: "successor t n None \<Longrightarrow> forward t isValid n None"
| forward_found: "successor t n (Some m) \<Longrightarrow> isValid (Some m) \<Longrightarrow> forward t isValid n (Some m)"
| forward_skip: "successor t n (Some m) \<Longrightarrow> \<not> isValid (Some m) \<Longrightarrow> forward t isValid m r \<Longrightarrow> forward t isValid n r"

text \<open>
  The reverse step. \<open>last_of_level t n r\<close>: following \<open>next()\<close> from \<open>n\<close> ends at the last
  sibling \<open>r\<close>. \<open>rightmost t n r\<close>: taking \<open>in()\<close> and then the last sibling of that level,
  repeatedly, ends at \<open>r\<close>, the right-most deepest child of \<open>n\<close>.
\<close>

inductive last_of_level :: "'n ast \<Rightarrow> 'n \<Rightarrow> 'n \<Rightarrow> bool" for t :: "'n ast" where
  last_here: "node_next t n = None \<Longrightarrow> last_of_level t n n"
| last_further: "node_next t n = Some s \<Longrightarrow> last_of_level t s r \<Longrightarrow> last_of_level t n r"

inductive rightmost :: "'n ast \<Rightarrow> 'n \<Rightarrow> 'n \<Rightarrow> bool" for t :: "'n ast" where
  rightmost_leaf: "node_in t n = None \<Longrightarrow> rightmost t n n"
| rightmost_descend: "node_in t n = Some c \<Longrightarrow> last_of_level t c l \<Longrightarrow> rightmost t l r \<Longrightarrow> rightmost t n r"

text \<open>
  \<open>predecessor t n r\<close>: the immediate predecessor of \<open>n\<close> is the right-most deepest child
  of \<open>prev()\<close> if \<open>prev()\<close> exists, else \<open>out()\<close> itself.
\<close>

inductive predecessor :: "'n ast \<Rightarrow> 'n \<Rightarrow> 'n option \<Rightarrow> bool" for t :: "'n ast" where
  predecessor_prev: "node_prev t n = Some s \<Longrightarrow> rightmost t s r \<Longrightarrow> predecessor t n (Some r)"
| predecessor_out: "node_prev t n = None \<Longrightarrow> predecessor t n (node_out t n)"

inductive backward :: "'n ast \<Rightarrow> ('n option \<Rightarrow> bool) \<Rightarrow> 'n \<Rightarrow> 'n option \<Rightarrow> bool"
  for t :: "'n ast" and isValid :: "'n option \<Rightarrow> bool" where
  backward_none: "predecessor t n None \<Longrightarrow> backward t isValid n None"
| backward_found: "predecessor t n (Some m) \<Longrightarrow> isValid (Some m) \<Longrightarrow> backward t isValid n (Some m)"
| backward_skip: "predecessor t n (Some m) \<Longrightarrow> \<not> isValid (Some m) \<Longrightarrow> backward t isValid m r \<Longrightarrow> backward t isValid n r"

section \<open>Rooted ordered trees of nodes\<close>

text \<open>
  Modelled from the spec: the linkage of the nodes is outside \<open>src/\<close>; the specification
  says that \<open>next\<close>, \<open>prev\<close>, \<open>in\<close> and \<open>out\<close> form a rooted, ordered tree (following
  sibling, preceding sibling, first child, parent). A tree carries at each node what
  \<open>getType()\<close>, \<open>getLocation()\<close> and \<open>getSourceBlock()\<close> return; a node of the tree is the
  path to it from the root, the list of child indices.
\<close>

record node_data =
  data_type :: ast_type
  data_location :: location
  data_sourceBlock :: "block option"

datatype 'a ast_tree = Node 'a "'a ast_tree list"

fun is_path :: "'a ast_tree \<Rightarrow> nat list \<Rightarrow> bool" where
  "is_path tr [] = True"
| "is_path (Node a ts) (i # p) = (i < length ts \<and> is_path (ts ! i) p)"

text \<open>The number of children of the node at a path (0 when there is no such node).\<close>

fun arity :: "'a ast_tree \<Rightarrow> nat list \<Rightarrow> nat" where
  "arity (Node a ts) [] = length ts"
| "arity (Node a ts) (i # p) = (if i < length ts then arity (ts ! i) p else 0)"

fun data_at :: "'a ast_tree \<Rightarrow> nat list \<Rightarrow> 'a" where
  "data_at (Node a ts) [] = a"
| "data_at (Node a ts) (i # p) = (if i < length ts then data_at (ts ! i) p else a)"

definition tree_in :: "'a ast_tree \<Rightarrow> nat list \<Rightarrow> nat list option" where
  "tree_in tr p = (if 0 < arity tr p then Some (p @ [0]) else None)"

definition tree_out :: "nat list \<Rightarrow> nat list option" where
  "tree_out p = (if p = [] then None else Some (butlast p))"

definition tree_next :: "'a ast_tree \<Rightarrow> nat list \<Rightarrow> nat list option" where
  "tree_next tr p =
     (if p \<noteq> [] \<and> Suc (last p) < arity tr (butlast p)
      then Some (butlast p @ [Suc (last p)]) else None)"

definition tree_prev :: "nat list \<Rightarrow> nat list option" where
  "tree_prev p =
     (if p \<noteq> [] \<and> 0 < last p then Some (butlast p @ [last p - 1]) else None)"

definition ast_of_tree :: "node_data ast_tree \<Rightarrow> nat list ast" where
  "ast_of_tree tr =
     \<lparr> node_next = tree_next tr, node_prev = tree_prev, node_in = tree_in tr,
       node_out = tree_out,
       getType = (\<lambda>p. data_type (data_at tr p)),
       getLocation = (\<lambda>p. data_location (data_at tr p)),
       getSourceBlock = (\<lambda>p. data_sourceBlock (data_at tr p)) \<rparr>"

text \<open>
  The nodes of a tree in pre-order: a node, then its children from left to right, each
  with its own descendants, before its next sibling.
\<close>

fun preorder :: "'a ast_tree \<Rightarrow> nat list list"
  and preorder_children :: "nat \<Rightarrow> 'a ast_tree list \<Rightarrow> nat list list" where
  "preorder (Node a ts) = [] # preorder_children 0 ts"
| "preorder_children i [] = []"
| "preorder_children i (c # cs) = map ((#) i) (preorder c) @ preorder_children (Suc i) cs"

text \<open>The nodes after a node in pre-order, nearest first, and those before it, nearest first.\<close>

definition nodes_after :: "'a ast_tree \<Rightarrow> nat list \<Rightarrow> nat list list" where
  "nodes_after tr p = tl (dropWhile (\<lambda>q. q \<noteq> p) (preorder tr))"

definition nodes_before :: "'a ast_tree \<Rightarrow> nat list \<Rightarrow> nat list list" where
  "nodes_before tr p = rev (takeWhile (\<lambda>q. q \<noteq> p) (preorder tr))"

text \<open>
  The order of the paths in the proofs: the least node of a tree among those that
  satisfy \<open>A\<close>, or none when no node does, and the greatest one likewise. The paths are
  compared lexicographically, a path before its extensions, which is their order in
  \<open>preorder\<close>.
\<close>

definition least_node :: "'a ast_tree \<Rightarrow> (nat list \<Rightarrow> bool) \<Rightarrow> nat list option \<Rightarrow> bool" where
  "least_node tr A r =
     (case r of
        None \<Rightarrow> (\<forall>q. is_path tr q \<longrightarrow> \<not> A q)
      | Some m \<Rightarrow> is_path tr m \<and> A m \<and> (\<forall>q. is_path tr q \<and> A q \<longrightarrow> m \<le> q))"

definition greatest_node :: "'a ast_tree \<Rightarrow> (nat list \<Rightarrow> bool) \<Rightarrow> nat list option \<Rightarrow> bool" where
  "greatest_node tr A r =
     (case r of
        None \<Rightarrow> (\<forall>q. is_path tr q \<longrightarrow> \<not> A q)
      | Some m \<Rightarrow> is_path tr m \<and> A m \<and> (\<forall>q. is_path tr q \<and> A q \<longrightarrow> q \<le> m))"

text \<open>The cursor is unset or is on a node of the tree.\<close>

definition cursor_in_tree :: "'a ast_tree \<Rightarrow> nat list cursor \<Rightarrow> bool" where
  "cursor_in_tree tr c = (case curNode c of None \<Rightarrow> True | Some p \<Rightarrow> is_path tr p)"

section \<open>A workspace to run the code on\<close>

definition blockLocation :: "string \<Rightarrow> output_connection \<Rightarrow> location" where
  "blockLocation name out =
     \<lparr> ltype = BlockType name, outputConnection = out, loc_toString = name,
       getDisplayText = [] \<rparr>"

definition fieldLocation :: "string \<Rightarrow> location" where
  "fieldLocation text =
     \<lparr> ltype = NoType, outputConnection = Undefined, loc_toString = text,
       getDisplayText = text \<rparr>"

definition connectionLocation :: "connection_kind \<Rightarrow> location" where
  "connectionLocation k =
     \<lparr> ltype = ConnectionType k, outputConnection = Undefined, loc_toString = [],
       getDisplayText = [] \<rparr>"

definition ifBlock :: block where
  "ifBlock = Block None ''if do''"

definition compareBlock :: block where
  "compareBlock = Block (Some ifBlock) ''6 = 5''"

definition printBlock :: block where
  "printBlock = Block None ''print abc''"

definition demo_data :: "ast_type \<Rightarrow> location \<Rightarrow> block option \<Rightarrow> node_data" where
  "demo_data ty l b = \<lparr> data_type = ty, data_location = l, data_sourceBlock = b \<rparr>"

definition coordinateLocation :: location where
  "coordinateLocation =
     \<lparr> ltype = NoType, outputConnection = Undefined, loc_toString = ''(0, 0)'',
       getDisplayText = [] \<rparr>"

text \<open>
  A workspace with one stack of two statement blocks: an \<open>if\<close> block with a field and
  an input that holds a value block (which has an output connection) with a field of its
  own, and a \<open>print\<close> block with one field.
\<close>

definition demo_tree :: "node_data ast_tree" where
  "demo_tree =
     Node (demo_data WORKSPACE coordinateLocation None)
       [ Node (demo_data STACK (blockLocation ''controls_if'' Null) (Some ifBlock))
           [ Node (demo_data BLOCK (blockLocation ''controls_if'' Null) (Some ifBlock))
               [ Node (demo_data FIELD (fieldLocation ''if'') (Some ifBlock)) [],
                 Node (demo_data INPUT (connectionLocation INPUT_VALUE) (Some ifBlock))
                   [ Node (demo_data BLOCK (blockLocation ''logic_compare'' Connection)
                             (Some compareBlock))
                       [ Node (demo_data FIELD (fieldLocation ''='') (Some compareBlock)) [] ] ] ],
             Node (demo_data BLOCK (blockLocation ''text_print'' Null) (Some printBlock))
               [ Node (demo_data FIELD (fieldLocation ''abc'') (Some printBlock)) [] ] ] ]"

definition demo_ast :: "nat list ast" where
  "demo_ast = ast_of_tree demo_tree"

section \<open>The result of a search satisfies the predicate\<close>

lemma getNextNode_result:
  assumes "getNextNode t isValid node = Some r"
  shows "r \<noteq> None \<longrightarrow> isValid r"
  by (rule getNextNode.raw_induct [OF _ assms])
    (auto simp: Let_def split: option.splits if_splits; blast)

lemma getPreviousNode_result:
  assumes "getPreviousNode t isValid node = Some r"
  shows "r \<noteq> None \<longrightarrow> isValid r"
  by (rule getPreviousNode.raw_induct [OF _ assms])
    (auto simp: Let_def split: option.splits if_splits; blast)

lemma cursor_move_unset: "curNode c = None \<Longrightarrow> cursor_move search c = Some (None, c)"
  by (simp add: cursor_move_def getCurNode_def)

section \<open>The cursor with no current node\<close>

text \<open>
  Claim C6. When \<open>curNode\<close> is unset, each of \<open>next\<close>, \<open>prev\<close>, \<open>in\<close> and \<open>out\<close> returns
  none, which is a result and not an error, and leaves the cursor as it was.
\<close>

theorem unset_cursor_no_op:
  assumes "curNode c = None"
  shows "cursor_next t c = Some (None, c) \<and> cursor_prev t c = Some (None, c)
       \<and> cursor_in t c = Some (None, c) \<and> cursor_out t c = Some (None, c)"
  using assms
  by (simp add: cursor_next_def cursor_prev_def cursor_in_def cursor_out_def cursor_move_unset)

theorem unset_cursor_no_op_witness:
  "curNode \<lparr>curNode = (None :: nat list option)\<rparr> = None
   \<and> cursor_next demo_ast \<lparr>curNode = None\<rparr> = Some (None, \<lparr>curNode = None\<rparr>)
   \<and> cursor_prev demo_ast \<lparr>curNode = None\<rparr> = Some (None, \<lparr>curNode = None\<rparr>)
   \<and> cursor_in demo_ast \<lparr>curNode = None\<rparr> = Some (None, \<lparr>curNode = None\<rparr>)
   \<and> cursor_out demo_ast \<lparr>curNode = None\<rparr> = Some (None, \<lparr>curNode = None\<rparr>)"
  using unset_cursor_no_op [of "\<lparr>curNode = None\<rparr>" demo_ast] by simp

section \<open>What the speaker says\<close>

lemma demo_root: "getType demo_ast [] = WORKSPACE" "getLocation demo_ast [] = coordinateLocation"
  "getSourceBlock demo_ast [] = None"
  by (simp_all add: demo_ast_def ast_of_tree_def demo_tree_def demo_data_def)

text \<open>
  Claim C8, as stated: a \<open>WORKSPACE\<close> node is described by exactly the string
  \<open>a workspace coordinate\<close>. The string of the code starts with a space, so the
  description of the root of the demo workspace differs from it.
\<close>

theorem workspace_text_counterexample:
  "getType demo_ast [] = WORKSPACE
   \<and> nodeToText demo_ast None (Some []) \<noteq> Inr ''a workspace coordinate''"
  by (simp add: nodeToText_def demo_root coordinateLocation_def)

text \<open>
  Claim C8, amended. For every old node, also none, the description of a \<open>WORKSPACE\<close>
  node whose location is neither an input-value slot nor a next-statement connection is
  the string \<open>a workspace coordinate\<close> preceded by one space.
\<close>

theorem workspace_text:
  assumes "getType t cur = WORKSPACE"
    and "ltype (getLocation t cur) \<noteq> ConnectionType INPUT_VALUE"
    and "ltype (getLocation t cur) \<noteq> ConnectionType NEXT_STATEMENT"
  shows "nodeToText t oldNode (Some cur) = Inr '' a workspace coordinate''"
  using assms by (simp add: nodeToText_def)

theorem workspace_text_witness:
  "getType demo_ast [] = WORKSPACE
   \<and> ltype (getLocation demo_ast []) \<noteq> ConnectionType INPUT_VALUE
   \<and> ltype (getLocation demo_ast []) \<noteq> ConnectionType NEXT_STATEMENT
   \<and> nodeToText demo_ast (Some [0]) (Some []) = Inr '' a workspace coordinate''"
  using workspace_text [of demo_ast "[]" "Some [0]"]
  by (simp add: demo_root coordinateLocation_def)

lemma demo_if: "getType demo_ast [0,0] = BLOCK"
  "getLocation demo_ast [0,0] = blockLocation ''controls_if'' Null"
  by (simp_all add: demo_ast_def ast_of_tree_def demo_tree_def demo_data_def)

text \<open>
  Claim C9. For every \<open>BLOCK\<close> node whose location has the block kind
  \<open>controls_if\<close>, and every old node, the description is exactly \<open>if 6 = 5\<close>, whatever
  the block contains.
\<close>

theorem conditional_text:
  assumes "getType t cur = BLOCK"
    and "ltype (getLocation t cur) = BlockType ''controls_if''"
  shows "nodeToText t oldNode (Some cur) = Inr ''if 6 = 5''"
  using assms by (simp add: nodeToText_def)

theorem conditional_text_witness:
  "getType demo_ast [0,0] = BLOCK
   \<and> ltype (getLocation demo_ast [0,0]) = BlockType ''controls_if''
   \<and> nodeToText demo_ast None (Some [0,0]) = Inr ''if 6 = 5''"
  using conditional_text [of demo_ast "[0,0]" None]
  by (simp add: demo_if blockLocation_def)

text \<open>
  Claim C10. \<open>nodeToText_\<close> reads \<open>getSourceBlock()\<close> without a null check: it returns a
  text exactly when the current node has a source block wherever one is needed, and a
  present old node has one when the current node is a \<open>BLOCK\<close> other than a conditional
  whose source block is not nested; otherwise it throws a \<open>TypeError\<close>.
\<close>

theorem nodeToText_total_iff:
  "(\<exists>text. nodeToText t oldNode (Some cur) = Inr text) \<longleftrightarrow> speaker_precondition t oldNode cur"
  by (auto simp: nodeToText_def speaker_precondition_def needsSourceBlock_def
      needsOldSourceBlock_def sourceBlockText_def Let_def split: option.splits)

theorem nodeToText_total_iff_witness:
  "\<not> speaker_precondition demo_ast (Some []) [0,1]
   \<and> nodeToText demo_ast (Some []) (Some [0,1]) = Inl TypeError
   \<and> speaker_precondition demo_ast None [0,1]
   \<and> nodeToText demo_ast None (Some [0,1]) = Inr ''text_print''"
proof -
  have e1: "nodeToText demo_ast (Some []) (Some [0,1]) = Inl TypeError"
    by code_simp
  have e2: "nodeToText demo_ast None (Some [0,1]) = Inr ''text_print''"
    by code_simp
  show ?thesis
    using nodeToText_total_iff [of demo_ast "Some []" "[0,1]"]
      nodeToText_total_iff [of demo_ast None "[0,1]"] e1 e2
    by simp
qed


section \<open>The forward search and the traversal of the specification\<close>

lemma ascend_sound: "ascend t n r \<Longrightarrow> findSiblingOrParent t (node_out t n) = Some r"
proof (induction rule: ascend.induct)
  case (ascend_root n)
  then show ?case by (simp add: findSiblingOrParent.simps [of t None])
next
  case (ascend_sibling n a s)
  then show ?case by (simp add: findSiblingOrParent.simps [of t "Some a"])
next
  case (ascend_parent n a r)
  then show ?case by (simp add: findSiblingOrParent.simps [of t "Some a"])
qed

lemma ascend_complete:
  assumes "findSiblingOrParent t node = Some r"
  shows "\<forall>n. node = node_out t n \<longrightarrow> ascend t n r"
proof (rule findSiblingOrParent.raw_induct [OF _ assms], goal_cases)
  case (1 f t node r)
  show ?case
  proof (intro allI impI)
    fix n assume n: "node = node_out t n"
    show "ascend t n r"
    proof (cases node)
      case None
      with 1(2) n show ?thesis by (auto intro: ascend_root)
    next
      case (Some a)
      show ?thesis
      proof (cases "node_next t a")
        case None
        with Some 1(2) have "f t (node_out t a) = Some r" by simp
        then have "ascend t a r" using 1(1) [of t "node_out t a" r] by simp
        with \<open>node = Some a\<close> None n show ?thesis by (auto intro: ascend_parent)
      next
        case (Some s)
        with \<open>node = Some a\<close> 1(2) n show ?thesis by (auto intro: ascend_sibling)
      qed
    qed
  qed
qed

lemma ascend_iff: "findSiblingOrParent t (node_out t n) = Some r \<longleftrightarrow> ascend t n r"
proof
  assume "findSiblingOrParent t (node_out t n) = Some r"
  from ascend_complete [OF this] show "ascend t n r" by simp
next
  assume "ascend t n r"
  then show "findSiblingOrParent t (node_out t n) = Some r" by (rule ascend_sound)
qed

lemma successor_iff:
  "successor t n r \<longleftrightarrow>
     (case node_in t n of
        Some c \<Rightarrow> r = Some c
      | None \<Rightarrow>
          (case node_next t n of
             Some s \<Rightarrow> r = Some s
           | None \<Rightarrow> findSiblingOrParent t (node_out t n) = Some r))"
  by (cases "node_in t n"; cases "node_next t n")
    (auto simp: ascend_iff elim: successor.cases intro: successor.intros)

lemma getNextNode_Some:
  "getNextNode t isValid (Some n) =
     (let newNode = (case node_in t n of Some c \<Rightarrow> Some c | None \<Rightarrow> node_next t n) in
      if isValid newNode then Some newNode
      else if newNode \<noteq> None then getNextNode t isValid newNode
      else
        (case findSiblingOrParent t (node_out t n) of
           None \<Rightarrow> None
         | Some siblingOrParent \<Rightarrow>
             if isValid siblingOrParent then Some siblingOrParent
             else if siblingOrParent \<noteq> None then getNextNode t isValid siblingOrParent
             else Some None))"
  by (subst getNextNode.simps) simp

lemma forward_sound:
  assumes "forward t isValid n r" and "\<not> isValid None"
  shows "getNextNode t isValid (Some n) = Some r"
  using assms
proof (induction rule: forward.induct)
  case (forward_none n)
  then show ?case
    by (auto simp: getNextNode_Some [of t isValid n] successor_iff split: option.splits)
next
  case (forward_found n m)
  then show ?case
    by (auto simp: getNextNode_Some [of t isValid n] successor_iff split: option.splits)
next
  case (forward_skip n m r)
  then show ?case
    by (auto simp: getNextNode_Some [of t isValid n] successor_iff split: option.splits)
qed

lemma forward_complete:
  assumes "getNextNode t isValid node = Some r"
  shows "\<not> isValid None \<longrightarrow> (\<forall>n. node = Some n \<longrightarrow> forward t isValid n r)"
proof (rule getNextNode.raw_induct [OF _ assms], goal_cases)
  case (1 f t isValid node r)
  show ?case
  proof (intro allI impI)
    fix n assume v: "\<not> isValid None" and n: "node = Some n"
    have IH: "\<And>m. f t isValid (Some m) = Some r \<Longrightarrow> forward t isValid m r"
      using 1(1) v by blast
    define body where "body s = (if isValid s then Some s else case s of None \<Rightarrow> Some None
                   | Some m \<Rightarrow> f t isValid (Some m))" for s
    have "\<exists>s. successor t n s \<and> body s = Some r"
    proof (cases "node_in t n")
      case (Some c)
      then have "successor t n (Some c)" by (simp add: successor_iff)
      moreover have "body (Some c) = Some r"
        using 1(2) n Some by (simp add: body_def Let_def split: if_splits)
      ultimately show ?thesis by blast
    next
      case None
      note nin = this
      show ?thesis
      proof (cases "node_next t n")
        case (Some c)
        then have "successor t n (Some c)" using nin by (simp add: successor_iff)
        moreover have "body (Some c) = Some r"
          using 1(2) n Some nin by (simp add: body_def Let_def split: if_splits)
        ultimately show ?thesis by blast
      next
        case None
        from 1(2) n nin None v obtain sp where sp: "findSiblingOrParent t (node_out t n) = Some sp"
          by (cases "findSiblingOrParent t (node_out t n)") (simp_all add: Let_def)
        then have "successor t n sp" using nin None by (simp add: successor_iff)
        moreover have "body sp = Some r"
          using 1(2) n None nin sp v by (cases sp) (simp_all add: body_def Let_def split: if_splits)
        ultimately show ?thesis by blast
      qed
    qed
    then obtain s where s: "successor t n s" and eq: "body s = Some r" by blast
    note eq = eq [unfolded body_def]
    show "forward t isValid n r"
    proof (cases s)
      case None
      with s eq v show ?thesis by (auto intro: forward_none)
    next
      case (Some m)
      show ?thesis
      proof (cases "isValid (Some m)")
        case True
        with s eq Some show ?thesis by (auto intro: forward_found)
      next
        case False
        with eq Some have "f t isValid (Some m) = Some r" by simp
        then have "forward t isValid m r" by (rule IH)
        with s Some False show ?thesis by (auto intro: forward_skip)
      qed
    qed
  qed
qed

text \<open>
  Claim C2. From every node the forward search steps to \<open>in()\<close> if present, else to
  \<open>next()\<close>; when both are none it ascends, taking \<open>out()\<close> and trying the \<open>next()\<close> of
  each ancestor until a sibling is found or the root is exhausted, and then yields none;
  a node that fails the predicate is skipped by stepping on from it. The search of the
  code returns \<open>r\<close> exactly when the traversal so described yields \<open>r\<close>.
\<close>

theorem forward_traversal:
  assumes "\<not> isValid None"
  shows "getNextNode t isValid (Some n) = Some r \<longleftrightarrow> forward t isValid n r"
  using forward_sound [of t isValid n r] forward_complete [of t isValid "Some n" r] assms
  by blast

theorem forward_traversal_witness:
  "\<not> validNode demo_ast None
   \<and> getNextNode demo_ast (validNode demo_ast) (Some [0,0]) = Some (Some [0,1])
   \<and> forward demo_ast (validNode demo_ast) [0,0] (Some [0,1])"
proof -
  have e: "getNextNode demo_ast (validNode demo_ast) (Some [0,0]) = Some (Some [0,1])"
    by code_simp
  show ?thesis
    using forward_traversal [of "validNode demo_ast" demo_ast "[0,0]" "Some [0,1]"] e
    by simp
qed

section \<open>The reverse search and the traversal of the specification\<close>

lemma last_of_level_sound: "last_of_level t n r \<Longrightarrow> lastSibling t n = Some r"
proof (induction rule: last_of_level.induct)
  case (last_here n)
  then show ?case by (simp add: lastSibling.simps [of t n])
next
  case (last_further n s r)
  then show ?case by (simp add: lastSibling.simps [of t n])
qed

lemma last_of_level_complete:
  assumes "lastSibling t n = Some r"
  shows "last_of_level t n r"
proof (rule lastSibling.raw_induct [OF _ assms], goal_cases)
  case (1 f t n r)
  show ?case
  proof (cases "node_next t n")
    case None
    with 1(2) show ?thesis by (auto intro: last_here)
  next
    case (Some s)
    with 1(2) have "f t s = Some r" by simp
    then have "last_of_level t s r" by (rule 1(1))
    with Some show ?thesis by (auto intro: last_further)
  qed
qed

lemma last_of_level_iff: "lastSibling t n = Some r \<longleftrightarrow> last_of_level t n r"
  using last_of_level_sound [of t n r] last_of_level_complete [of t n r] by (intro iffI)

lemma rightmost_sound: "rightmost t n r \<Longrightarrow> getRightMostChild t n = Some r"
proof (induction rule: rightmost.induct)
  case (rightmost_leaf n)
  then show ?case by (simp add: getRightMostChild.simps [of t n])
next
  case (rightmost_descend n c l r)
  then show ?case
    by (simp add: getRightMostChild.simps [of t n] last_of_level_sound)
qed

lemma rightmost_complete:
  assumes "getRightMostChild t n = Some r"
  shows "rightmost t n r"
proof (rule getRightMostChild.raw_induct [OF _ assms], goal_cases)
  case (1 f t n r)
  show ?case
  proof (cases "node_in t n")
    case None
    with 1(2) show ?thesis by (auto intro: rightmost_leaf)
  next
    case (Some c)
    with 1(2) obtain l where l: "lastSibling t c = Some l" and f: "f t l = Some r"
      by (cases "lastSibling t c") simp_all
    from f have "rightmost t l r" by (rule 1(1))
    with Some l show ?thesis
      by (auto intro: rightmost_descend simp: last_of_level_iff)
  qed
qed

lemma rightmost_iff: "getRightMostChild t n = Some r \<longleftrightarrow> rightmost t n r"
  using rightmost_sound [of t n r] rightmost_complete [of t n r] by (intro iffI)

lemma predecessor_iff:
  "predecessor t n r \<longleftrightarrow>
     (case node_prev t n of
        Some s \<Rightarrow> map_option Some (getRightMostChild t s) = Some r
      | None \<Rightarrow> node_out t n = r)"
  by (cases "node_prev t n")
    (auto simp: rightmost_iff elim: predecessor.cases intro: predecessor.intros)

lemma getPreviousNode_Some:
  "getPreviousNode t isValid (Some n) =
     (case (case node_prev t n of
              Some p \<Rightarrow> map_option Some (getRightMostChild t p)
            | None \<Rightarrow> Some (node_out t n)) of
        None \<Rightarrow> None
      | Some newNode \<Rightarrow>
          if isValid newNode then Some newNode
          else if newNode \<noteq> None then getPreviousNode t isValid newNode
          else Some None)"
  by (subst getPreviousNode.simps) simp

lemma backward_sound:
  assumes "backward t isValid n r" and "\<not> isValid None"
  shows "getPreviousNode t isValid (Some n) = Some r"
  using assms
proof (induction rule: backward.induct)
  case (backward_none n)
  then show ?case
    by (auto simp: getPreviousNode_Some [of t isValid n] predecessor_iff split: option.splits)
next
  case (backward_found n m)
  then show ?case
    by (auto simp: getPreviousNode_Some [of t isValid n] predecessor_iff split: option.splits)
next
  case (backward_skip n m r)
  then show ?case
    by (auto simp: getPreviousNode_Some [of t isValid n] predecessor_iff split: option.splits)
qed

lemma backward_complete:
  assumes "getPreviousNode t isValid node = Some r"
  shows "\<not> isValid None \<longrightarrow> (\<forall>n. node = Some n \<longrightarrow> backward t isValid n r)"
proof (rule getPreviousNode.raw_induct [OF _ assms], goal_cases)
  case (1 f t isValid node r)
  show ?case
  proof (intro allI impI)
    fix n assume v: "\<not> isValid None" and n: "node = Some n"
    have IH: "\<And>m. f t isValid (Some m) = Some r \<Longrightarrow> backward t isValid m r"
      using 1(1) v by blast
    define body where "body s = (if isValid s then Some s else case s of None \<Rightarrow> Some None
                   | Some m \<Rightarrow> f t isValid (Some m))" for s
    have "\<exists>s. predecessor t n s \<and> body s = Some r"
    proof (cases "node_prev t n")
      case None
      then have "predecessor t n (node_out t n)" by (simp add: predecessor_iff)
      moreover have "body (node_out t n) = Some r"
        using 1(2) n None v by (cases "node_out t n") (auto simp: body_def split: if_splits)
      ultimately show ?thesis by blast
    next
      case (Some p)
      from 1(2) n Some obtain m where m: "getRightMostChild t p = Some m"
        by (cases "getRightMostChild t p") simp_all
      then have "predecessor t n (Some m)" using Some by (simp add: predecessor_iff)
      moreover have "body (Some m) = Some r"
        using 1(2) n Some m by (simp add: body_def split: if_splits)
      ultimately show ?thesis by blast
    qed
    then obtain s where s: "predecessor t n s" and eq: "body s = Some r" by blast
    note eq = eq [unfolded body_def]
    show "backward t isValid n r"
    proof (cases s)
      case None
      with s eq v show ?thesis by (auto intro: backward_none)
    next
      case (Some m)
      show ?thesis
      proof (cases "isValid (Some m)")
        case True
        with s eq Some show ?thesis by (auto intro: backward_found)
      next
        case False
        with eq Some have "f t isValid (Some m) = Some r" by simp
        then have "backward t isValid m r" by (rule IH)
        with s Some False show ?thesis by (auto intro: backward_skip)
      qed
    qed
  qed
qed

text \<open>
  Claim C3. From every node the reverse search steps to the right-most deepest child of
  \<open>prev()\<close> if \<open>prev()\<close> exists (taking \<open>in()\<close> and then the last sibling of the level,
  repeatedly), else to \<open>out()\<close> itself without descending; a node that fails the
  predicate is skipped by stepping on from it, and the search yields none when no
  predecessor remains. The search of the code returns \<open>r\<close> exactly when the traversal so
  described yields \<open>r\<close>.
\<close>

theorem backward_traversal:
  assumes "\<not> isValid None"
  shows "getPreviousNode t isValid (Some n) = Some r \<longleftrightarrow> backward t isValid n r"
  using backward_sound [of t isValid n r] backward_complete [of t isValid "Some n" r] assms
  by blast

theorem backward_traversal_witness:
  "\<not> validInNode demo_ast None
   \<and> getPreviousNode demo_ast (validInNode demo_ast) (Some [0,1]) = Some (Some [0,0,1,0,0])
   \<and> backward demo_ast (validInNode demo_ast) [0,1] (Some [0,0,1,0,0])"
proof -
  have e: "getPreviousNode demo_ast (validInNode demo_ast) (Some [0,1]) = Some (Some [0,0,1,0,0])"
    by code_simp
  show ?thesis
    using backward_traversal [of "validInNode demo_ast" demo_ast "[0,1]" "Some [0,0,1,0,0]"] e
    by simp
qed

section \<open>Trees: paths, their order and the pre-order list\<close>

subsection \<open>Paths\<close>

lemma is_path_snoc: "is_path tr (p @ [j]) \<longleftrightarrow> is_path tr p \<and> j < arity tr p"
proof (induction p arbitrary: tr)
  case Nil
  show ?case by (cases tr) simp
next
  case (Cons i p)
  then show ?case by (cases tr) auto
qed

lemma is_path_append: "is_path tr (p @ q) \<Longrightarrow> is_path tr p"
proof (induction p arbitrary: tr)
  case Nil
  show ?case by simp
next
  case (Cons i p)
  then show ?case by (cases tr) auto
qed

lemma is_path_prefix: "is_path tr q \<Longrightarrow> prefix p q \<Longrightarrow> is_path tr p"
  by (auto simp: prefix_def dest: is_path_append)

lemma is_path_child: "is_path tr (p @ j # rest) \<Longrightarrow> j < arity tr p"
  using is_path_append [of tr "p @ [j]" rest] by (simp add: is_path_snoc)

subsection \<open>The order of the paths\<close>

lemma less_append_Cons: "p < p @ x # xs" for p :: "nat list"
  by (induction p) auto

lemma append_less_cancel: "u @ x < u @ y \<longleftrightarrow> x < y" for u :: "nat list"
  by (induction u) auto

lemma append_le_cancel: "u @ x \<le> u @ y \<longleftrightarrow> x \<le> y" for u :: "nat list"
  by (induction u) auto

lemma less_not_prefix_append: "p < q \<Longrightarrow> \<not> prefix p q \<Longrightarrow> p @ xs < q" for p :: "nat list"
proof (induction p arbitrary: q)
  case Nil
  then show ?case by simp
next
  case (Cons a p)
  then show ?case by (cases q) auto
qed

lemma less_prefixE:
  fixes p :: "nat list"
  assumes "p < q" and "prefix p q"
  obtains j rest where "q = p @ j # rest"
proof -
  from assms(2) obtain zs where "q = p @ zs" by (auto simp: prefix_def)
  with assms(1) show ?thesis using that by (cases zs) auto
qed

lemma first_child_least: "p < q \<Longrightarrow> p @ [0] \<le> q" for p :: "nat list"
proof (cases "prefix p q")
  case True
  assume "p < q"
  then obtain j rest where "q = p @ j # rest" using True by (rule less_prefixE)
  then show ?thesis by (auto simp: append_le_cancel)
next
  case False
  assume "p < q"
  then have "p @ [0] < q" using False by (rule less_not_prefix_append)
  then show ?thesis by simp
qed

lemma next_sibling_least:
  fixes r :: "nat list"
  assumes "r @ [i] < q" and "\<not> prefix (r @ [i]) q"
  shows "r @ [Suc i] \<le> q"
proof (cases "prefix r q")
  case True
  have "r < r @ [i]" by (rule less_append_Cons)
  then have "r < q" using assms(1) by (rule less_trans)
  then obtain j rest where q: "q = r @ j # rest" using True by (rule less_prefixE)
  with assms have "i < j" by (auto simp: append_less_cancel)
  with q show ?thesis by (auto simp: append_le_cancel)
next
  case False
  have "r < r @ [i]" by (rule less_append_Cons)
  then have "r < q" using assms(1) by (rule less_trans)
  then have "r @ [Suc i] < q" using False by (rule less_not_prefix_append)
  then show ?thesis by simp
qed

subsection \<open>The pre-order list\<close>

lemma set_preorder:
  fixes tr :: "'a ast_tree" and ts :: "'a ast_tree list"
  shows "set (preorder tr) = {p. is_path tr p}"
    and "set (preorder_children i ts) =
     {j # p | j p. i \<le> j \<and> j < i + length ts \<and> is_path (ts ! (j - i)) p}"
proof (induction tr and i ts rule: preorder_preorder_children.induct)
  case (1 a ts)
  show ?case
  proof (rule set_eqI)
    fix p show "p \<in> set (preorder (Node a ts)) \<longleftrightarrow> p \<in> {p. is_path (Node a ts) p}"
      using 1 by (cases p) auto
  qed
next
  case (2 i)
  show ?case by simp
next
  case (3 i c cs)
  show ?case
  proof (rule set_eqI)
    fix q
    show "q \<in> set (preorder_children i (c # cs)) \<longleftrightarrow>
          q \<in> {j # p | j p. i \<le> j \<and> j < i + length (c # cs) \<and> is_path ((c # cs) ! (j - i)) p}"
    proof (cases q)
      case Nil
      then show ?thesis using 3 by auto
    next
      case (Cons j p)
      show ?thesis
      proof (cases "j = i")
        case True
        then show ?thesis using 3 Cons by auto
      next
        case False
        then have "i \<le> j \<Longrightarrow> (c # cs) ! (j - i) = cs ! (j - Suc i)"
          by (simp add: nth_Cons')
        then show ?thesis using 3 Cons False by auto
      qed
    qed
  qed
qed

lemma sorted_preorder:
  fixes tr :: "'a ast_tree" and ts :: "'a ast_tree list"
  shows "sorted_wrt (<) (preorder tr)"
    and "sorted_wrt (<) (preorder_children i ts)"
proof (induction tr and i ts rule: preorder_preorder_children.induct)
  case (1 a ts)
  then show ?case by (auto simp: set_preorder)
next
  case (2 i)
  show ?case by simp
next
  case (3 i c cs)
  then show ?case
    by (auto simp: sorted_wrt_append sorted_wrt_map set_preorder)
qed

section \<open>The forward search on a tree\<close>

subsection \<open>The moves on a tree\<close>

lemma ast_of_tree_sel [simp]:
  "node_next (ast_of_tree tr) = tree_next tr"
  "node_prev (ast_of_tree tr) = tree_prev"
  "node_in (ast_of_tree tr) = tree_in tr"
  "node_out (ast_of_tree tr) = tree_out"
  "getType (ast_of_tree tr) p = data_type (data_at tr p)"
  "getLocation (ast_of_tree tr) p = data_location (data_at tr p)"
  "getSourceBlock (ast_of_tree tr) p = data_sourceBlock (data_at tr p)"
  by (simp_all add: ast_of_tree_def)

lemma tree_out_simps [simp]: "tree_out [] = None" "tree_out (r @ [i]) = Some r"
  by (simp_all add: tree_out_def)

lemma tree_next_simps [simp]:
  "tree_next tr [] = None"
  "tree_next tr (r @ [i]) = (if Suc i < arity tr r then Some (r @ [Suc i]) else None)"
  by (simp_all add: tree_next_def)

lemma tree_prev_simps [simp]:
  "tree_prev [] = None"
  "tree_prev (r @ [0]) = None"
  "tree_prev (r @ [Suc i]) = Some (r @ [i])"
  by (simp_all add: tree_prev_def)

subsection \<open>Ascending on a tree\<close>

lemma findSiblingOrParent_tree:
  assumes "is_path tr a"
  shows "\<exists>r. findSiblingOrParent (ast_of_tree tr) (Some a) = Some r
           \<and> least_node tr (\<lambda>q. a < q \<and> \<not> prefix a q) r"
  using assms
proof (induction a rule: rev_induct)
  case Nil
  have "findSiblingOrParent (ast_of_tree tr) (Some []) = Some None"
    by (simp add: findSiblingOrParent.simps [of _ "Some []"] findSiblingOrParent.simps [of _ None])
  then show ?case by (simp add: least_node_def)
next
  case (snoc i r)
  from snoc.prems have r: "is_path tr r" and i: "i < arity tr r"
    by (simp_all add: is_path_snoc)
  show ?case
  proof (cases "Suc i < arity tr r")
    case True
    have "findSiblingOrParent (ast_of_tree tr) (Some (r @ [i])) = Some (Some (r @ [Suc i]))"
      using True by (simp add: findSiblingOrParent.simps [of _ "Some (r @ [i])"])
    moreover have "least_node tr (\<lambda>q. r @ [i] < q \<and> \<not> prefix (r @ [i]) q) (Some (r @ [Suc i]))"
      using True r
      by (auto simp: least_node_def is_path_snoc append_less_cancel next_sibling_least)
    ultimately show ?thesis by blast
  next
    case False
    from snoc.IH [OF r] obtain s where
      s: "findSiblingOrParent (ast_of_tree tr) (Some r) = Some s"
      and least: "least_node tr (\<lambda>q. r < q \<and> \<not> prefix r q) s"
      by blast
    have eq: "findSiblingOrParent (ast_of_tree tr) (Some (r @ [i])) = Some s"
      using False s by (simp add: findSiblingOrParent.simps [of _ "Some (r @ [i])"])
    have up: "r < q \<and> \<not> prefix r q"
      if q: "is_path tr q" and less: "r @ [i] < q" and np: "\<not> prefix (r @ [i]) q" for q
    proof
      have "r < r @ [i]" by (rule less_append_Cons)
      then show "r < q" using less by (rule less_trans)
      show "\<not> prefix r q"
      proof
        assume "prefix r q"
        with \<open>r < q\<close> obtain j rest where qq: "q = r @ j # rest" by (rule less_prefixE)
        with q have "j < arity tr r" by (simp add: is_path_child)
        moreover from less np qq have "i < j" by (auto simp: append_less_cancel)
        ultimately show False using False by simp
      qed
    qed
    have "least_node tr (\<lambda>q. r @ [i] < q \<and> \<not> prefix (r @ [i]) q) s"
    proof (cases s)
      case None
      with least up show ?thesis by (auto simp: least_node_def)
    next
      case (Some m)
      with least have m: "is_path tr m" "r < m" "\<not> prefix r m"
        and min: "\<And>q. is_path tr q \<Longrightarrow> r < q \<Longrightarrow> \<not> prefix r q \<Longrightarrow> m \<le> q"
        by (auto simp: least_node_def)
      have "r @ [i] < m" using m(2,3) by (rule less_not_prefix_append)
      moreover have "\<not> prefix (r @ [i]) m" using m(3) by (auto dest: append_prefixD)
      ultimately show ?thesis using Some m(1) min up by (auto simp: least_node_def)
    qed
    with eq show ?thesis by blast
  qed
qed

subsection \<open>The forward step on a tree\<close>

lemma getNextNode_step:
  assumes "\<not> isValid None"
  shows "getNextNode t isValid (Some n) =
     (case (case node_in t n of Some c \<Rightarrow> Some (Some c)
            | None \<Rightarrow> findSiblingOrParent t (Some n)) of
        None \<Rightarrow> None
      | Some s \<Rightarrow>
          if isValid s then Some s
          else (case s of None \<Rightarrow> Some None | Some m \<Rightarrow> getNextNode t isValid (Some m)))"
  using assms
  by (auto simp: getNextNode_Some [of t isValid n] findSiblingOrParent.simps [of t "Some n"]
      split: option.splits)

lemma successor_tree:
  assumes "is_path tr p"
  shows "\<exists>s. (case tree_in tr p of Some c \<Rightarrow> Some (Some c)
               | None \<Rightarrow> findSiblingOrParent (ast_of_tree tr) (Some p)) = Some s
           \<and> least_node tr (\<lambda>q. p < q) s"
proof (cases "0 < arity tr p")
  case True
  then have "least_node tr (\<lambda>q. p < q) (Some (p @ [0]))"
    using assms by (auto simp: least_node_def is_path_snoc less_append_Cons first_child_least)
  with True show ?thesis by (simp add: tree_in_def)
next
  case False
  from findSiblingOrParent_tree [OF assms] obtain s where
    s: "findSiblingOrParent (ast_of_tree tr) (Some p) = Some s"
    and least: "least_node tr (\<lambda>q. p < q \<and> \<not> prefix p q) s"
    by blast
  have np: "\<not> prefix p q" if "is_path tr q" "p < q" for q
  proof
    assume "prefix p q"
    with \<open>p < q\<close> obtain j rest where "q = p @ j # rest" by (rule less_prefixE)
    with that(1) have "j < arity tr p" by (simp add: is_path_child)
    with False show False by simp
  qed
  have "least_node tr (\<lambda>q. p < q) s"
    using least np by (cases s) (auto simp: least_node_def)
  with s False show ?thesis by (simp add: tree_in_def)
qed

subsection \<open>Sorted lists\<close>

lemma filter_greater_first:
  fixes L :: "'b :: linorder list"
  assumes "sorted_wrt (<) L" and "m \<in> set L" and "p < m"
    and "\<And>q. q \<in> set L \<Longrightarrow> p < q \<Longrightarrow> m \<le> q"
  shows "filter (\<lambda>q. p < q) L = m # filter (\<lambda>q. m < q) L"
  using assms
proof (induction L)
  case Nil
  then show ?case by simp
next
  case (Cons x xs)
  show ?case
  proof (cases "p < x")
    case True
    with Cons.prems have "m \<le> x" by simp
    moreover have "x \<le> m" using Cons.prems(1,2) by auto
    ultimately have mx: "m = x" by simp
    have "\<forall>y\<in>set xs. x < y" using Cons.prems(1) by simp
    then have "filter (\<lambda>q. p < q) xs = xs" "filter (\<lambda>q. x < q) xs = xs"
      using True by (auto simp: filter_id_conv)
    with True mx show ?thesis by simp
  next
    case False
    with Cons.prems have "m \<noteq> x" by auto
    with Cons.prems have "m \<in> set xs" "x < m" by auto
    with Cons.IH Cons.prems have "filter (\<lambda>q. p < q) xs = m # filter (\<lambda>q. m < q) xs" by auto
    with False \<open>x < m\<close> show ?thesis by auto
  qed
qed

lemma nodes_after_sorted:
  fixes L :: "'b :: linorder list"
  assumes "sorted_wrt (<) L" and "p \<in> set L"
  shows "tl (dropWhile (\<lambda>q. q \<noteq> p) L) = filter (\<lambda>q. p < q) L"
  using assms
proof (induction L)
  case Nil
  then show ?case by simp
next
  case (Cons x xs)
  show ?case
  proof (cases "x = p")
    case True
    with Cons.prems have "\<forall>y\<in>set xs. p < y" by simp
    then have "filter (\<lambda>q. p < q) xs = xs" by (auto simp: filter_id_conv)
    with True show ?thesis by simp
  next
    case False
    with Cons.prems have "p \<in> set xs" "x < p" by auto
    with Cons.IH Cons.prems False show ?thesis by auto
  qed
qed

subsection \<open>The forward search on a tree\<close>

lemma getNextNode_tree_filter:
  assumes "\<not> isValid None" and "is_path tr p"
  shows "getNextNode (ast_of_tree tr) isValid (Some p) =
           Some (find (\<lambda>q. isValid (Some q)) (filter (\<lambda>q. p < q) (preorder tr)))"
  using assms(2)
proof (induction "length (filter (\<lambda>q. p < q) (preorder tr))" arbitrary: p rule: less_induct)
  case less
  from successor_tree [OF less.prems] obtain s where
    s: "(case tree_in tr p of Some c \<Rightarrow> Some (Some c)
               | None \<Rightarrow> findSiblingOrParent (ast_of_tree tr) (Some p)) = Some s"
    and least: "least_node tr (\<lambda>q. p < q) s"
    by blast
  have step: "getNextNode (ast_of_tree tr) isValid (Some p) =
      (if isValid s then Some s
       else (case s of None \<Rightarrow> Some None
             | Some m \<Rightarrow> getNextNode (ast_of_tree tr) isValid (Some m)))"
    using s by (simp add: getNextNode_step [of isValid, OF assms(1)])
  show ?case
  proof (cases s)
    case None
    with least have "filter (\<lambda>q. p < q) (preorder tr) = []"
      by (auto simp: least_node_def filter_empty_conv set_preorder)
    with step None assms(1) show ?thesis by simp
  next
    case (Some m)
    with least have m: "is_path tr m" "p < m"
      and min: "\<And>q. is_path tr q \<Longrightarrow> p < q \<Longrightarrow> m \<le> q"
      by (auto simp: least_node_def)
    have f: "filter (\<lambda>q. p < q) (preorder tr) = m # filter (\<lambda>q. m < q) (preorder tr)"
      using m min by (intro filter_greater_first) (auto simp: sorted_preorder set_preorder)
    then have "length (filter (\<lambda>q. m < q) (preorder tr))
                 < length (filter (\<lambda>q. p < q) (preorder tr))"
      by simp
    from less.hyps [OF this m(1)] step Some f show ?thesis by simp
  qed
qed

lemma getNextNode_tree:
  assumes "\<not> isValid None" and "is_path tr p"
  shows "getNextNode (ast_of_tree tr) isValid (Some p) =
           Some (find (\<lambda>q. isValid (Some q)) (nodes_after tr p))"
  using getNextNode_tree_filter [of isValid tr p, OF assms] assms(2)
  by (simp add: nodes_after_def nodes_after_sorted sorted_preorder set_preorder)

section \<open>The reverse search on a tree\<close>

subsection \<open>The reverse step on a tree\<close>

lemma prefix_le: "prefix p q \<Longrightarrow> p \<le> q" for p :: "nat list"
proof -
  assume "prefix p q"
  then obtain zs where "q = p @ zs" by (auto simp: prefix_def)
  then show ?thesis using less_append_Cons [of p] by (cases zs) (auto simp: less_imp_le)
qed

lemma parent_greatest: "q < r @ [0] \<Longrightarrow> q \<le> r" for r :: "nat list"
  using first_child_least [of r q] by (auto simp: not_le [symmetric])

lemma filter_greater_shorter:
  fixes L :: "'b :: linorder list"
  assumes "m \<in> set L" and "p < m"
  shows "length (filter (\<lambda>q. m < q) L) < length (filter (\<lambda>q. p < q) L)"
proof -
  have "filter (\<lambda>q. m < q) L = filter (\<lambda>q. m < q) (filter (\<lambda>q. p < q) L)"
    using assms(2) by (auto intro: filter_cong)
  moreover have "m \<in> set (filter (\<lambda>q. p < q) L)" using assms by simp
  then have "length (filter (\<lambda>q. m < q) (filter (\<lambda>q. p < q) L)) < length (filter (\<lambda>q. p < q) L)"
    by (rule length_filter_less) simp
  ultimately show ?thesis by simp
qed

lemma lastSibling_tree:
  assumes "j < arity tr r"
  shows "lastSibling (ast_of_tree tr) (r @ [j]) = Some (r @ [arity tr r - 1])"
  using assms
proof (induction "arity tr r - j" arbitrary: j rule: less_induct)
  case less
  show ?case
  proof (cases "Suc j < arity tr r")
    case True
    then have "lastSibling (ast_of_tree tr) (r @ [Suc j]) = Some (r @ [arity tr r - 1])"
      by (intro less.hyps) auto
    with True show ?thesis by (simp add: lastSibling.simps [of _ "r @ [j]"])
  next
    case False
    then have "lastSibling (ast_of_tree tr) (r @ [j]) = Some (r @ [j])"
      by (simp add: lastSibling.simps [of _ "r @ [j]"])
    moreover from False less.prems have "j = arity tr r - 1" by simp
    ultimately show ?thesis by simp
  qed
qed

lemma getRightMostChild_tree:
  assumes "is_path tr s"
  shows "\<exists>m. getRightMostChild (ast_of_tree tr) s = Some m
           \<and> greatest_node tr (prefix s) (Some m)"
  using assms
proof (induction "length (filter (\<lambda>q. s < q) (preorder tr))" arbitrary: s rule: less_induct)
  case less
  show ?case
  proof (cases "0 < arity tr s")
    case False
    have "q \<le> s" if "is_path tr q" "prefix s q" for q
    proof -
      from that(2) obtain zs where zs: "q = s @ zs" by (auto simp: prefix_def)
      show ?thesis
      proof (cases zs)
        case Nil
        with zs show ?thesis by simp
      next
        case (Cons j rest)
        with zs that(1) have "j < arity tr s" by (simp add: is_path_child)
        with False show ?thesis by simp
      qed
    qed
    then have "greatest_node tr (prefix s) (Some s)"
      using less.prems by (auto simp: greatest_node_def)
    moreover have "getRightMostChild (ast_of_tree tr) s = Some s"
      using False by (simp add: getRightMostChild.simps [of _ s] tree_in_def)
    ultimately show ?thesis by blast
  next
    case True
    define c where "c = s @ [arity tr s - 1]"
    have c: "is_path tr c" "s < c" "prefix s c"
      using True less.prems by (simp_all add: c_def is_path_snoc less_append_Cons)
    have "length (filter (\<lambda>q. c < q) (preorder tr)) < length (filter (\<lambda>q. s < q) (preorder tr))"
      using c by (intro filter_greater_shorter) (simp_all add: set_preorder)
    from less.hyps [OF this c(1)] obtain m where
      m: "getRightMostChild (ast_of_tree tr) c = Some m"
      and great: "greatest_node tr (prefix c) (Some m)"
      by blast
    from great have pm: "is_path tr m" "prefix c m"
      and max: "\<And>q. is_path tr q \<Longrightarrow> prefix c q \<Longrightarrow> q \<le> m"
      by (auto simp: greatest_node_def)
    have "lastSibling (ast_of_tree tr) (s @ [0]) = Some c"
      using True by (simp add: lastSibling_tree c_def)
    then have eq: "getRightMostChild (ast_of_tree tr) s = Some m"
      using True m by (simp add: getRightMostChild.simps [of _ s] tree_in_def)
    have "q \<le> m" if q: "is_path tr q" "prefix s q" for q
    proof -
      from q(2) obtain zs where zs: "q = s @ zs" by (auto simp: prefix_def)
      have cm: "c \<le> m" using pm(2) by (rule prefix_le)
      show ?thesis
      proof (cases zs)
        case Nil
        with zs c(2) cm show ?thesis by simp
      next
        case (Cons j rest)
        with zs q(1) have j: "j < arity tr s" by (simp add: is_path_child)
        show ?thesis
        proof (cases "j = arity tr s - 1")
          case True
          with zs Cons have "prefix c q" by (simp add: c_def)
          with q(1) show ?thesis by (rule max)
        next
          case False
          with j have "j < arity tr s - 1" by simp
          with zs Cons have "q < c" by (simp add: c_def append_less_cancel)
          with cm show ?thesis by simp
        qed
      qed
    qed
    moreover have "prefix s m" using c(3) pm(2) by (rule prefix_order.trans)
    ultimately have "greatest_node tr (prefix s) (Some m)"
      using pm(1) by (auto simp: greatest_node_def)
    with eq show ?thesis by blast
  qed
qed

lemma predecessor_tree:
  assumes "is_path tr p"
  shows "\<exists>s. (case tree_prev p of
                 Some x \<Rightarrow> map_option Some (getRightMostChild (ast_of_tree tr) x)
               | None \<Rightarrow> Some (tree_out p)) = Some s
           \<and> greatest_node tr (\<lambda>q. q < p) s"
proof (cases p rule: rev_cases)
  case Nil
  then show ?thesis by (simp add: greatest_node_def)
next
  case (snoc r i)
  with assms have r: "is_path tr r" and i: "i < arity tr r"
    by (simp_all add: is_path_snoc)
  show ?thesis
  proof (cases i)
    case 0
    have "greatest_node tr (\<lambda>q. q < r @ [0]) (Some r)"
      using r by (auto simp: greatest_node_def less_append_Cons parent_greatest)
    with snoc 0 show ?thesis by simp
  next
    case (Suc k)
    with i r have x: "is_path tr (r @ [k])" by (simp add: is_path_snoc)
    from getRightMostChild_tree [OF x] obtain m where
      m: "getRightMostChild (ast_of_tree tr) (r @ [k]) = Some m"
      and great: "greatest_node tr (prefix (r @ [k])) (Some m)"
      by blast
    from great have pm: "is_path tr m" "prefix (r @ [k]) m"
      and max: "\<And>q. is_path tr q \<Longrightarrow> prefix (r @ [k]) q \<Longrightarrow> q \<le> m"
      by (auto simp: greatest_node_def)
    from pm(2) obtain zs where "m = r @ k # zs" by (auto simp: prefix_def)
    then have mp: "m < r @ [Suc k]" by (simp add: append_less_cancel)
    have xm: "r @ [k] \<le> m" using pm(2) by (rule prefix_le)
    have "q \<le> m" if q: "is_path tr q" "q < r @ [Suc k]" for q
    proof (cases "prefix (r @ [k]) q")
      case True
      with q(1) show ?thesis by (rule max)
    next
      case False
      show ?thesis
      proof (cases "r @ [k] < q")
        case True
        then have "r @ [Suc k] \<le> q" using False by (rule next_sibling_least)
        with q(2) show ?thesis by simp
      next
        case False
        with xm show ?thesis by simp
      qed
    qed
    with pm(1) mp have "greatest_node tr (\<lambda>q. q < r @ [Suc k]) (Some m)"
      by (auto simp: greatest_node_def)
    with snoc Suc m show ?thesis by simp
  qed
qed

subsection \<open>Sorted lists, from the end\<close>

lemma filter_less_last:
  fixes L :: "'b :: linorder list"
  assumes "sorted_wrt (<) L" and "m \<in> set L" and "m < p"
    and "\<And>q. q \<in> set L \<Longrightarrow> q < p \<Longrightarrow> q \<le> m"
  shows "filter (\<lambda>q. q < p) L = filter (\<lambda>q. q < m) L @ [m]"
  using assms
proof (induction L)
  case Nil
  then show ?case by simp
next
  case (Cons x xs)
  have above: "\<forall>y\<in>set xs. x < y" using Cons.prems(1) by simp
  show ?case
  proof (cases "x = m")
    case True
    have "filter (\<lambda>q. q < p) xs = []"
    proof -
      have "\<not> q < p" if "q \<in> set xs" for q
      proof
        assume "q < p"
        with that Cons.prems(4) have "q \<le> m" by simp
        with above that True show False by auto
      qed
      then show ?thesis by (auto simp: filter_empty_conv)
    qed
    moreover have "filter (\<lambda>q. q < m) xs = []"
      using above True by (auto simp: filter_empty_conv)
    ultimately show ?thesis using True Cons.prems(3) by simp
  next
    case False
    with Cons.prems(2) have mx: "m \<in> set xs" by simp
    with above have "x < m" by simp
    moreover from this Cons.prems(3) have "x < p" by simp
    moreover have "filter (\<lambda>q. q < p) xs = filter (\<lambda>q. q < m) xs @ [m]"
      using Cons.prems mx by (intro Cons.IH) auto
    ultimately show ?thesis by simp
  qed
qed

lemma nodes_before_sorted:
  fixes L :: "'b :: linorder list"
  assumes "sorted_wrt (<) L" and "p \<in> set L"
  shows "takeWhile (\<lambda>q. q \<noteq> p) L = filter (\<lambda>q. q < p) L"
  using assms
proof (induction L)
  case Nil
  then show ?case by simp
next
  case (Cons x xs)
  show ?case
  proof (cases "x = p")
    case True
    with Cons.prems have "\<forall>y\<in>set xs. p < y" by simp
    then have "filter (\<lambda>q. q < p) xs = []" by (auto simp: filter_empty_conv)
    with True show ?thesis by simp
  next
    case False
    with Cons.prems have "p \<in> set xs" "x < p" by auto
    with Cons.IH Cons.prems False show ?thesis by auto
  qed
qed

subsection \<open>The reverse search on a tree\<close>

lemma getPreviousNode_tree_filter:
  assumes "\<not> isValid None" and "is_path tr p"
  shows "getPreviousNode (ast_of_tree tr) isValid (Some p) =
           Some (find (\<lambda>q. isValid (Some q)) (rev (filter (\<lambda>q. q < p) (preorder tr))))"
  using assms(2)
proof (induction "length (filter (\<lambda>q. q < p) (preorder tr))" arbitrary: p rule: less_induct)
  case less
  from predecessor_tree [OF less.prems] obtain s where
    s: "(case tree_prev p of
           Some x \<Rightarrow> map_option Some (getRightMostChild (ast_of_tree tr) x)
         | None \<Rightarrow> Some (tree_out p)) = Some s"
    and great: "greatest_node tr (\<lambda>q. q < p) s"
    by blast
  have step: "getPreviousNode (ast_of_tree tr) isValid (Some p) =
      (if isValid s then Some s
       else (case s of None \<Rightarrow> Some None
             | Some m \<Rightarrow> getPreviousNode (ast_of_tree tr) isValid (Some m)))"
    using s assms(1)
    by (cases s)
      (simp_all add: getPreviousNode_Some [of "ast_of_tree tr" isValid p, unfolded ast_of_tree_sel])
  show ?case
  proof (cases s)
    case None
    with great have "filter (\<lambda>q. q < p) (preorder tr) = []"
      by (auto simp: greatest_node_def filter_empty_conv set_preorder)
    with step None assms(1) show ?thesis by simp
  next
    case (Some m)
    with great have m: "is_path tr m" "m < p"
      and max: "\<And>q. is_path tr q \<Longrightarrow> q < p \<Longrightarrow> q \<le> m"
      by (auto simp: greatest_node_def)
    have f: "filter (\<lambda>q. q < p) (preorder tr) = filter (\<lambda>q. q < m) (preorder tr) @ [m]"
      using m max by (intro filter_less_last) (auto simp: sorted_preorder set_preorder)
    then have "length (filter (\<lambda>q. q < m) (preorder tr))
                 < length (filter (\<lambda>q. q < p) (preorder tr))"
      by simp
    from less.hyps [OF this m(1)] step Some f show ?thesis by simp
  qed
qed

lemma getPreviousNode_tree:
  assumes "\<not> isValid None" and "is_path tr p"
  shows "getPreviousNode (ast_of_tree tr) isValid (Some p) =
           Some (find (\<lambda>q. isValid (Some q)) (nodes_before tr p))"
  using getPreviousNode_tree_filter [of isValid tr p, OF assms] assms(2)
  by (simp add: nodes_before_def nodes_before_sorted sorted_preorder set_preorder)

section \<open>The cursor on a tree\<close>

subsection \<open>Termination for every predicate\<close>

lemma getNextNode_terminates:
  assumes "is_path tr p"
  shows "\<exists>r. getNextNode (ast_of_tree tr) isValid (Some p) = Some r"
  using assms
proof (induction "length (filter (\<lambda>q. p < q) (preorder tr))" arbitrary: p rule: less_induct)
  case less
  from successor_tree [OF less.prems] obtain s where
    s: "(case tree_in tr p of Some c \<Rightarrow> Some (Some c)
               | None \<Rightarrow> findSiblingOrParent (ast_of_tree tr) (Some p)) = Some s"
    and least: "least_node tr (\<lambda>q. p < q) s"
    by blast
  have rec: "\<exists>r. getNextNode (ast_of_tree tr) isValid (Some m) = Some r" if "s = Some m" for m
  proof -
    from that least have m: "is_path tr m" "p < m" by (auto simp: least_node_def)
    then have "length (filter (\<lambda>q. m < q) (preorder tr))
                 < length (filter (\<lambda>q. p < q) (preorder tr))"
      by (intro filter_greater_shorter) (simp_all add: set_preorder)
    then show ?thesis using m(1) by (rule less.hyps)
  qed
  show ?case
  proof (cases "tree_in tr p")
    case (Some c)
    with s rec [of c] show ?thesis
      by (auto simp: getNextNode_Some [of _ isValid p] Let_def)
  next
    case None
    note nin = this
    show ?thesis
    proof (cases "tree_next tr p")
      case (Some x)
      with s nin rec [of x] show ?thesis
        by (auto simp: getNextNode_Some [of _ isValid p] Let_def
            findSiblingOrParent.simps [of _ "Some p"])
    next
      case None
      with s nin have "findSiblingOrParent (ast_of_tree tr) (tree_out p) = Some s"
        by (simp add: findSiblingOrParent.simps [of _ "Some p"])
      with nin None rec show ?thesis
        by (cases s) (auto simp: getNextNode_Some [of _ isValid p])
    qed
  qed
qed

lemma getPreviousNode_terminates:
  assumes "is_path tr p"
  shows "\<exists>r. getPreviousNode (ast_of_tree tr) isValid (Some p) = Some r"
  using assms
proof (induction "length (filter (\<lambda>q. q < p) (preorder tr))" arbitrary: p rule: less_induct)
  case less
  from predecessor_tree [OF less.prems] obtain s where
    s: "(case tree_prev p of
           Some x \<Rightarrow> map_option Some (getRightMostChild (ast_of_tree tr) x)
         | None \<Rightarrow> Some (tree_out p)) = Some s"
    and great: "greatest_node tr (\<lambda>q. q < p) s"
    by blast
  have step: "getPreviousNode (ast_of_tree tr) isValid (Some p) =
      (if isValid s then Some s
       else if s \<noteq> None then getPreviousNode (ast_of_tree tr) isValid s else Some None)"
    using s
    by (simp add: getPreviousNode_Some [of "ast_of_tree tr" isValid p, unfolded ast_of_tree_sel])
  show ?case
  proof (cases s)
    case None
    with step show ?thesis by simp
  next
    case (Some m)
    with great have m: "is_path tr m" "m < p"
      and max: "\<And>q. is_path tr q \<Longrightarrow> q < p \<Longrightarrow> q \<le> m"
      by (auto simp: greatest_node_def)
    have "filter (\<lambda>q. q < p) (preorder tr) = filter (\<lambda>q. q < m) (preorder tr) @ [m]"
      using m max by (intro filter_less_last) (auto simp: sorted_preorder set_preorder)
    then have "length (filter (\<lambda>q. q < m) (preorder tr))
                 < length (filter (\<lambda>q. q < p) (preorder tr))"
      by simp
    from less.hyps [OF this m(1)] step Some show ?thesis by auto
  qed
qed

subsection \<open>The four operations on a tree\<close>

lemma cursor_move_found:
  assumes "curNode c = Some p" and "search (Some p) = Some r"
  shows "cursor_move search c = Some (r, if r \<noteq> None then c\<lparr>curNode := r\<rparr> else c)"
  using assms by (simp add: cursor_move_def getCurNode_def setCurNode_def)

lemma cursor_next_tree:
  assumes "is_path tr p" and "curNode c = Some p"
  shows "cursor_next (ast_of_tree tr) c =
    (let r = find (\<lambda>q. validNode (ast_of_tree tr) (Some q)) (nodes_after tr p)
     in Some (r, if r \<noteq> None then c\<lparr>curNode := r\<rparr> else c))"
  using getNextNode_tree [of "validNode (ast_of_tree tr)" tr p] assms
  by (simp add: cursor_next_def cursor_move_found Let_def)

lemma cursor_in_tree_eq:
  assumes "is_path tr p" and "curNode c = Some p"
  shows "cursor_in (ast_of_tree tr) c =
    (let r = find (\<lambda>q. validInNode (ast_of_tree tr) (Some q)) (nodes_after tr p)
     in Some (r, if r \<noteq> None then c\<lparr>curNode := r\<rparr> else c))"
  using getNextNode_tree [of "validInNode (ast_of_tree tr)" tr p] assms
  by (simp add: cursor_in_def cursor_move_found Let_def)

lemma cursor_prev_tree:
  assumes "is_path tr p" and "curNode c = Some p"
  shows "cursor_prev (ast_of_tree tr) c =
    (let r = find (\<lambda>q. validNode (ast_of_tree tr) (Some q)) (nodes_before tr p)
     in Some (r, if r \<noteq> None then c\<lparr>curNode := r\<rparr> else c))"
  using getPreviousNode_tree [of "validNode (ast_of_tree tr)" tr p] assms
  by (simp add: cursor_prev_def cursor_move_found Let_def)

lemma cursor_out_tree:
  assumes "is_path tr p" and "curNode c = Some p"
  shows "cursor_out (ast_of_tree tr) c =
    (let r = find (\<lambda>q. validInNode (ast_of_tree tr) (Some q)) (nodes_before tr p)
     in Some (r, if r \<noteq> None then c\<lparr>curNode := r\<rparr> else c))"
  using getPreviousNode_tree [of "validInNode (ast_of_tree tr)" tr p] assms
  by (simp add: cursor_out_def cursor_move_found Let_def)

lemma find_cases:
  obtains (none) "find P xs = None" "\<forall>x\<in>set xs. \<not> P x"
  | (some) m where "find P xs = Some m" "P m" "m \<in> set xs"
proof (cases "find P xs")
  case None
  then show ?thesis using none by (simp add: find_None_iff)
next
  case (Some m)
  then show ?thesis using some [of m] by (auto simp: find_Some_iff)
qed

text \<open>
  Claim C1. On every tree and from every current node, \<open>next\<close> returns the first node
  after the current one in pre-order whose type is \<open>BLOCK\<close> and whose location has no
  output connection, and moves the cursor to it; so it moves only to such a node, it does
  move when there is one ahead, and when there is none it returns none and leaves the
  cursor unchanged. The same holds for \<open>prev\<close> and the nodes before the current one,
  nearest first.
\<close>

theorem next_prev_statement_blocks:
  assumes "is_path tr p" and "curNode c = Some p"
  shows "(\<exists>r c'. cursor_next (ast_of_tree tr) c = Some (r, c')
            \<and> r = find (\<lambda>q. getType (ast_of_tree tr) q = BLOCK
                         \<and> outputConnection (getLocation (ast_of_tree tr) q) = Null)
                     (nodes_after tr p)
            \<and> (\<forall>m. r = Some m \<longrightarrow>
                  curNode c' = Some m \<and> m \<in> set (nodes_after tr p)
                  \<and> getType (ast_of_tree tr) m = BLOCK
                  \<and> outputConnection (getLocation (ast_of_tree tr) m) = Null)
            \<and> (r = None \<longrightarrow> c' = c)
            \<and> ((\<forall>q\<in>set (nodes_after tr p).
                   \<not> (getType (ast_of_tree tr) q = BLOCK
                      \<and> outputConnection (getLocation (ast_of_tree tr) q) = Null))
                 \<longrightarrow> r = None)
            \<and> ((\<exists>q\<in>set (nodes_after tr p).
                   getType (ast_of_tree tr) q = BLOCK
                   \<and> outputConnection (getLocation (ast_of_tree tr) q) = Null)
                 \<longrightarrow> r \<noteq> None))
       \<and> (\<exists>r c'. cursor_prev (ast_of_tree tr) c = Some (r, c')
            \<and> r = find (\<lambda>q. getType (ast_of_tree tr) q = BLOCK
                         \<and> outputConnection (getLocation (ast_of_tree tr) q) = Null)
                     (nodes_before tr p)
            \<and> (\<forall>m. r = Some m \<longrightarrow>
                  curNode c' = Some m \<and> m \<in> set (nodes_before tr p)
                  \<and> getType (ast_of_tree tr) m = BLOCK
                  \<and> outputConnection (getLocation (ast_of_tree tr) m) = Null)
            \<and> (r = None \<longrightarrow> c' = c)
            \<and> ((\<forall>q\<in>set (nodes_before tr p).
                   \<not> (getType (ast_of_tree tr) q = BLOCK
                      \<and> outputConnection (getLocation (ast_of_tree tr) q) = Null))
                 \<longrightarrow> r = None)
            \<and> ((\<exists>q\<in>set (nodes_before tr p).
                   getType (ast_of_tree tr) q = BLOCK
                   \<and> outputConnection (getLocation (ast_of_tree tr) q) = Null)
                 \<longrightarrow> r \<noteq> None))"
proof (intro conjI)
  show "\<exists>r c'. cursor_next (ast_of_tree tr) c = Some (r, c')
            \<and> r = find (\<lambda>q. getType (ast_of_tree tr) q = BLOCK
                         \<and> outputConnection (getLocation (ast_of_tree tr) q) = Null)
                     (nodes_after tr p)
            \<and> (\<forall>m. r = Some m \<longrightarrow>
                  curNode c' = Some m \<and> m \<in> set (nodes_after tr p)
                  \<and> getType (ast_of_tree tr) m = BLOCK
                  \<and> outputConnection (getLocation (ast_of_tree tr) m) = Null)
            \<and> (r = None \<longrightarrow> c' = c)
            \<and> ((\<forall>q\<in>set (nodes_after tr p).
                   \<not> (getType (ast_of_tree tr) q = BLOCK
                      \<and> outputConnection (getLocation (ast_of_tree tr) q) = Null))
                 \<longrightarrow> r = None)
            \<and> ((\<exists>q\<in>set (nodes_after tr p).
                   getType (ast_of_tree tr) q = BLOCK
                   \<and> outputConnection (getLocation (ast_of_tree tr) q) = Null)
                 \<longrightarrow> r \<noteq> None)"
  proof (rule find_cases [of "\<lambda>q. validNode (ast_of_tree tr) (Some q)" "nodes_after tr p"],
      goal_cases none some)
    case none
    then show ?thesis by (simp add: cursor_next_tree [OF assms] Let_def)
  next
    case (some m)
    then show ?thesis by (auto simp: cursor_next_tree [OF assms] Let_def)
  qed
  show "\<exists>r c'. cursor_prev (ast_of_tree tr) c = Some (r, c')
            \<and> r = find (\<lambda>q. getType (ast_of_tree tr) q = BLOCK
                         \<and> outputConnection (getLocation (ast_of_tree tr) q) = Null)
                     (nodes_before tr p)
            \<and> (\<forall>m. r = Some m \<longrightarrow>
                  curNode c' = Some m \<and> m \<in> set (nodes_before tr p)
                  \<and> getType (ast_of_tree tr) m = BLOCK
                  \<and> outputConnection (getLocation (ast_of_tree tr) m) = Null)
            \<and> (r = None \<longrightarrow> c' = c)
            \<and> ((\<forall>q\<in>set (nodes_before tr p).
                   \<not> (getType (ast_of_tree tr) q = BLOCK
                      \<and> outputConnection (getLocation (ast_of_tree tr) q) = Null))
                 \<longrightarrow> r = None)
            \<and> ((\<exists>q\<in>set (nodes_before tr p).
                   getType (ast_of_tree tr) q = BLOCK
                   \<and> outputConnection (getLocation (ast_of_tree tr) q) = Null)
                 \<longrightarrow> r \<noteq> None)"
  proof (rule find_cases [of "\<lambda>q. validNode (ast_of_tree tr) (Some q)" "nodes_before tr p"],
      goal_cases none some)
    case none
    then show ?thesis by (simp add: cursor_prev_tree [OF assms] Let_def)
  next
    case (some m)
    then show ?thesis by (auto simp: cursor_prev_tree [OF assms] Let_def)
  qed
qed

theorem next_prev_statement_blocks_witness:
  "is_path demo_tree [0,0] \<and> curNode \<lparr>curNode = Some [0,0]\<rparr> = Some [0,0]
   \<and> is_path demo_tree [0,1] \<and> curNode \<lparr>curNode = Some [0,1]\<rparr> = Some [0,1]
   \<and> cursor_next (ast_of_tree demo_tree) \<lparr>curNode = Some [0,0]\<rparr>
       = Some (Some [0,1], \<lparr>curNode = Some [0,1]\<rparr>)
   \<and> find (\<lambda>q. getType (ast_of_tree demo_tree) q = BLOCK
               \<and> outputConnection (getLocation (ast_of_tree demo_tree) q) = Null)
        (nodes_after demo_tree [0,0]) = Some [0,1]
   \<and> cursor_prev (ast_of_tree demo_tree) \<lparr>curNode = Some [0,1]\<rparr>
       = Some (Some [0,0], \<lparr>curNode = Some [0,0]\<rparr>)
   \<and> find (\<lambda>q. getType (ast_of_tree demo_tree) q = BLOCK
               \<and> outputConnection (getLocation (ast_of_tree demo_tree) q) = Null)
        (nodes_before demo_tree [0,1]) = Some [0,0]
   \<and> cursor_next (ast_of_tree demo_tree) \<lparr>curNode = Some [0,1]\<rparr>
       = Some (None, \<lparr>curNode = Some [0,1]\<rparr>)
   \<and> cursor_prev (ast_of_tree demo_tree) \<lparr>curNode = Some [0,0]\<rparr>
       = Some (None, \<lparr>curNode = Some [0,0]\<rparr>)"
proof -
  have h0: "is_path demo_tree [0,0]" by code_simp
  have c0: "curNode \<lparr>curNode = Some [0,0]\<rparr> = Some [0,0]" by simp
  have h1: "is_path demo_tree [0,1]" by code_simp
  have c1: "curNode \<lparr>curNode = Some [0,1]\<rparr> = Some [0,1]" by simp
  have e1: "cursor_next (ast_of_tree demo_tree) \<lparr>curNode = Some [0,0]\<rparr>
       = Some (Some [0,1], \<lparr>curNode = Some [0,1]\<rparr>)"
    by code_simp
  have e2: "cursor_prev (ast_of_tree demo_tree) \<lparr>curNode = Some [0,1]\<rparr>
       = Some (Some [0,0], \<lparr>curNode = Some [0,0]\<rparr>)"
    by code_simp
  have e3: "cursor_next (ast_of_tree demo_tree) \<lparr>curNode = Some [0,1]\<rparr>
       = Some (None, \<lparr>curNode = Some [0,1]\<rparr>)"
    by code_simp
  have e4: "cursor_prev (ast_of_tree demo_tree) \<lparr>curNode = Some [0,0]\<rparr>
       = Some (None, \<lparr>curNode = Some [0,0]\<rparr>)"
    by code_simp
  from next_prev_statement_blocks [OF h0 c0] obtain r c' where
    "cursor_next (ast_of_tree demo_tree) \<lparr>curNode = Some [0,0]\<rparr> = Some (r, c')"
    and "r = find (\<lambda>q. getType (ast_of_tree demo_tree) q = BLOCK
               \<and> outputConnection (getLocation (ast_of_tree demo_tree) q) = Null)
        (nodes_after demo_tree [0,0])"
    by (elim conjE exE)
  with e1 have f1: "find (\<lambda>q. getType (ast_of_tree demo_tree) q = BLOCK
               \<and> outputConnection (getLocation (ast_of_tree demo_tree) q) = Null)
        (nodes_after demo_tree [0,0]) = Some [0,1]"
    by simp
  from next_prev_statement_blocks [OF h1 c1] obtain r c' where
    "cursor_prev (ast_of_tree demo_tree) \<lparr>curNode = Some [0,1]\<rparr> = Some (r, c')"
    and "r = find (\<lambda>q. getType (ast_of_tree demo_tree) q = BLOCK
               \<and> outputConnection (getLocation (ast_of_tree demo_tree) q) = Null)
        (nodes_before demo_tree [0,1])"
    by (elim conjE exE)
  with e2 have f2: "find (\<lambda>q. getType (ast_of_tree demo_tree) q = BLOCK
               \<and> outputConnection (getLocation (ast_of_tree demo_tree) q) = Null)
        (nodes_before demo_tree [0,1]) = Some [0,0]"
    by simp
  show ?thesis by (intro conjI h0 c0 h1 c1 e1 e2 e3 e4 f1 f2)
qed

text \<open>
  Claim C4. On every tree and from every current node, \<open>in\<close> returns the first node of
  type \<open>FIELD\<close> after the current one in pre-order and moves the cursor to it, or returns
  none and leaves the cursor unchanged when there is none; \<open>out\<close> moves the cursor only
  to a node of type \<open>FIELD\<close> that is before the current one in pre-order, and leaves it
  unchanged when it returns none.
\<close>

theorem in_out_fields:
  assumes "is_path tr p" and "curNode c = Some p"
  shows "(\<exists>r c'. cursor_in (ast_of_tree tr) c = Some (r, c')
            \<and> r = find (\<lambda>q. getType (ast_of_tree tr) q = FIELD) (nodes_after tr p)
            \<and> (\<forall>m. r = Some m \<longrightarrow>
                  curNode c' = Some m \<and> getType (ast_of_tree tr) m = FIELD)
            \<and> (r = None \<longrightarrow> c' = c))
       \<and> (\<exists>r c'. cursor_out (ast_of_tree tr) c = Some (r, c')
            \<and> (\<forall>m. r = Some m \<longrightarrow>
                  curNode c' = Some m \<and> getType (ast_of_tree tr) m = FIELD
                  \<and> m \<in> set (nodes_before tr p))
            \<and> (r = None \<longrightarrow> c' = c))"
proof (intro conjI)
  show "\<exists>r c'. cursor_in (ast_of_tree tr) c = Some (r, c')
            \<and> r = find (\<lambda>q. getType (ast_of_tree tr) q = FIELD) (nodes_after tr p)
            \<and> (\<forall>m. r = Some m \<longrightarrow>
                  curNode c' = Some m \<and> getType (ast_of_tree tr) m = FIELD)
            \<and> (r = None \<longrightarrow> c' = c)"
  proof (rule find_cases [of "\<lambda>q. validInNode (ast_of_tree tr) (Some q)" "nodes_after tr p"],
      goal_cases none some)
    case none
    then show ?thesis by (simp add: cursor_in_tree_eq [OF assms] Let_def)
  next
    case (some m)
    then show ?thesis by (auto simp: cursor_in_tree_eq [OF assms] Let_def)
  qed
  show "\<exists>r c'. cursor_out (ast_of_tree tr) c = Some (r, c')
            \<and> (\<forall>m. r = Some m \<longrightarrow>
                  curNode c' = Some m \<and> getType (ast_of_tree tr) m = FIELD
                  \<and> m \<in> set (nodes_before tr p))
            \<and> (r = None \<longrightarrow> c' = c)"
  proof (rule find_cases [of "\<lambda>q. validInNode (ast_of_tree tr) (Some q)" "nodes_before tr p"],
      goal_cases none some)
    case none
    then show ?thesis by (simp add: cursor_out_tree [OF assms] Let_def)
  next
    case (some m)
    then show ?thesis by (auto simp: cursor_out_tree [OF assms] Let_def)
  qed
qed

theorem in_out_fields_witness:
  "is_path demo_tree [0,1] \<and> curNode \<lparr>curNode = Some [0,1]\<rparr> = Some [0,1]
   \<and> cursor_in (ast_of_tree demo_tree) \<lparr>curNode = Some [0,1]\<rparr>
       = Some (Some [0,1,0], \<lparr>curNode = Some [0,1,0]\<rparr>)
   \<and> find (\<lambda>q. getType (ast_of_tree demo_tree) q = FIELD) (nodes_after demo_tree [0,1])
       = Some [0,1,0]
   \<and> cursor_out (ast_of_tree demo_tree) \<lparr>curNode = Some [0,1]\<rparr>
       = Some (Some [0,0,1,0,0], \<lparr>curNode = Some [0,0,1,0,0]\<rparr>)
   \<and> getType (ast_of_tree demo_tree) [0,0,1,0,0] = FIELD
   \<and> [0,0,1,0,0] \<in> set (nodes_before demo_tree [0,1])"
proof -
  have h: "is_path demo_tree [0,1]" by code_simp
  have c: "curNode \<lparr>curNode = Some [0,1]\<rparr> = Some [0,1]" by simp
  have e1: "cursor_in (ast_of_tree demo_tree) \<lparr>curNode = Some [0,1]\<rparr>
       = Some (Some [0,1,0], \<lparr>curNode = Some [0,1,0]\<rparr>)"
    by code_simp
  have e2: "cursor_out (ast_of_tree demo_tree) \<lparr>curNode = Some [0,1]\<rparr>
       = Some (Some [0,0,1,0,0], \<lparr>curNode = Some [0,0,1,0,0]\<rparr>)"
    by code_simp
  from in_out_fields [OF h c] e1 e2 h show ?thesis by auto
qed

lemma cursor_move_invariant:
  assumes "cursor_move search c = Some (r, c')"
    and "\<And>n y. search (Some n) = Some y \<Longrightarrow> y \<noteq> None \<longrightarrow> isValid y"
  shows "curNode c' = curNode c \<or> isValid (curNode c')"
  using assms
  by (auto simp: cursor_move_def getCurNode_def setCurNode_def split: option.splits if_splits)

lemma cursor_move_terminates:
  assumes "\<And>p. curNode c = Some p \<Longrightarrow> \<exists>r. search (Some p) = Some r"
  shows "\<exists>r c'. cursor_move search c = Some (r, c')"
proof (cases "curNode c")
  case None
  then show ?thesis by (simp add: cursor_move_unset)
next
  case (Some p)
  with assms obtain r where "search (Some p) = Some r" by blast
  with Some show ?thesis by (simp add: cursor_move_found)
qed

text \<open>
  Claim C5. On every tree, with the cursor unset or on a node of the tree, each of
  \<open>next\<close>, \<open>prev\<close>, \<open>in\<close> and \<open>out\<close> returns, and afterwards \<open>curNode\<close> is what it was
  before or satisfies the predicate of the operation: \<open>validNode_\<close> for \<open>next\<close> and
  \<open>prev\<close>, \<open>validInNode_\<close> for \<open>in\<close> and \<open>out\<close>.
\<close>

theorem cursor_invariant:
  assumes "cursor_in_tree tr c"
  shows "(\<exists>r c'. cursor_next (ast_of_tree tr) c = Some (r, c')
            \<and> (curNode c' = curNode c \<or> validNode (ast_of_tree tr) (curNode c')))
       \<and> (\<exists>r c'. cursor_prev (ast_of_tree tr) c = Some (r, c')
            \<and> (curNode c' = curNode c \<or> validNode (ast_of_tree tr) (curNode c')))
       \<and> (\<exists>r c'. cursor_in (ast_of_tree tr) c = Some (r, c')
            \<and> (curNode c' = curNode c \<or> validInNode (ast_of_tree tr) (curNode c')))
       \<and> (\<exists>r c'. cursor_out (ast_of_tree tr) c = Some (r, c')
            \<and> (curNode c' = curNode c \<or> validInNode (ast_of_tree tr) (curNode c')))"
proof -
  have path: "is_path tr p" if "curNode c = Some p" for p
    using assms that by (simp add: cursor_in_tree_def)
  have fwd: "\<exists>r c'. cursor_move (getNextNode (ast_of_tree tr) isValid) c = Some (r, c')
            \<and> (curNode c' = curNode c \<or> isValid (curNode c'))" for isValid
  proof -
    obtain r c' where m: "cursor_move (getNextNode (ast_of_tree tr) isValid) c = Some (r, c')"
      using cursor_move_terminates [of c "getNextNode (ast_of_tree tr) isValid"]
        getNextNode_terminates path by blast
    from cursor_move_invariant [OF m, of isValid] have "curNode c' = curNode c \<or> isValid (curNode c')"
      using getNextNode_result by blast
    with m show ?thesis by blast
  qed
  have bwd: "\<exists>r c'. cursor_move (getPreviousNode (ast_of_tree tr) isValid) c = Some (r, c')
            \<and> (curNode c' = curNode c \<or> isValid (curNode c'))" for isValid
  proof -
    obtain r c' where m: "cursor_move (getPreviousNode (ast_of_tree tr) isValid) c = Some (r, c')"
      using cursor_move_terminates [of c "getPreviousNode (ast_of_tree tr) isValid"]
        getPreviousNode_terminates path by blast
    from cursor_move_invariant [OF m, of isValid] have "curNode c' = curNode c \<or> isValid (curNode c')"
      using getPreviousNode_result by blast
    with m show ?thesis by blast
  qed
  show ?thesis
    unfolding cursor_next_def cursor_prev_def cursor_in_def cursor_out_def
    by (intro conjI fwd bwd)
qed

theorem cursor_invariant_witness:
  "cursor_in_tree demo_tree \<lparr>curNode = Some [0,1]\<rparr>
   \<and> cursor_next (ast_of_tree demo_tree) \<lparr>curNode = Some [0,1]\<rparr>
       = Some (None, \<lparr>curNode = Some [0,1]\<rparr>)
   \<and> cursor_prev (ast_of_tree demo_tree) \<lparr>curNode = Some [0,1]\<rparr>
       = Some (Some [0,0], \<lparr>curNode = Some [0,0]\<rparr>)
   \<and> validNode (ast_of_tree demo_tree) (Some [0,0])
   \<and> cursor_in (ast_of_tree demo_tree) \<lparr>curNode = Some [0,1]\<rparr>
       = Some (Some [0,1,0], \<lparr>curNode = Some [0,1,0]\<rparr>)
   \<and> validInNode (ast_of_tree demo_tree) (Some [0,1,0])
   \<and> cursor_out (ast_of_tree demo_tree) \<lparr>curNode = Some [0,1]\<rparr>
       = Some (Some [0,0,1,0,0], \<lparr>curNode = Some [0,0,1,0,0]\<rparr>)
   \<and> validInNode (ast_of_tree demo_tree) (Some [0,0,1,0,0])"
proof -
  have h: "cursor_in_tree demo_tree \<lparr>curNode = Some [0,1]\<rparr>" by code_simp
  have e1: "cursor_next (ast_of_tree demo_tree) \<lparr>curNode = Some [0,1]\<rparr>
       = Some (None, \<lparr>curNode = Some [0,1]\<rparr>)"
    by code_simp
  have e2: "cursor_prev (ast_of_tree demo_tree) \<lparr>curNode = Some [0,1]\<rparr>
       = Some (Some [0,0], \<lparr>curNode = Some [0,0]\<rparr>)"
    by code_simp
  have e3: "cursor_in (ast_of_tree demo_tree) \<lparr>curNode = Some [0,1]\<rparr>
       = Some (Some [0,1,0], \<lparr>curNode = Some [0,1,0]\<rparr>)"
    by code_simp
  have e4: "cursor_out (ast_of_tree demo_tree) \<lparr>curNode = Some [0,1]\<rparr>
       = Some (Some [0,0,1,0,0], \<lparr>curNode = Some [0,0,1,0,0]\<rparr>)"
    by code_simp
  from cursor_invariant [OF h] e1 e2 e3 e4 h show ?thesis by auto
qed

lemma findSiblingOrParent_terminates:
  assumes "is_path tr p"
  shows "\<exists>r. findSiblingOrParent (ast_of_tree tr) (Some p) = Some r"
  using findSiblingOrParent_tree [OF assms] by blast

lemma lastSibling_terminates:
  assumes "is_path tr p"
  shows "\<exists>r. lastSibling (ast_of_tree tr) p = Some r"
proof (cases p rule: rev_cases)
  case Nil
  then show ?thesis by (simp add: lastSibling.simps [of _ "[]"])
next
  case (snoc r j)
  with assms show ?thesis by (simp add: is_path_snoc lastSibling_tree)
qed

lemma getRightMostChild_terminates:
  assumes "is_path tr p"
  shows "\<exists>r. getRightMostChild (ast_of_tree tr) p = Some r"
  using getRightMostChild_tree [OF assms] by blast

text \<open>
  Claim C7. On every tree and from every node of it, \<open>findSiblingOrParent_\<close>, the loop and
  the recursion of \<open>getRightMostChild_\<close>, and \<open>getNextNode_\<close> and \<open>getPreviousNode_\<close> with
  any predicate return; each of the four operations returns, with the first matching
  node after (before) the current one in pre-order, or with none when the nodes after
  (before) it are exhausted without a match.
\<close>

theorem navigation_terminates:
  assumes "is_path tr p" and "curNode c = Some p"
  shows "(\<exists>r. findSiblingOrParent (ast_of_tree tr) (Some p) = Some r)
       \<and> (\<exists>r. lastSibling (ast_of_tree tr) p = Some r)
       \<and> (\<exists>r. getRightMostChild (ast_of_tree tr) p = Some r)
       \<and> (\<exists>r. getNextNode (ast_of_tree tr) isValid (Some p) = Some r)
       \<and> (\<exists>r. getPreviousNode (ast_of_tree tr) isValid (Some p) = Some r)
       \<and> map_option fst (cursor_next (ast_of_tree tr) c)
           = Some (find (\<lambda>q. validNode (ast_of_tree tr) (Some q)) (nodes_after tr p))
       \<and> map_option fst (cursor_prev (ast_of_tree tr) c)
           = Some (find (\<lambda>q. validNode (ast_of_tree tr) (Some q)) (nodes_before tr p))
       \<and> map_option fst (cursor_in (ast_of_tree tr) c)
           = Some (find (\<lambda>q. validInNode (ast_of_tree tr) (Some q)) (nodes_after tr p))
       \<and> map_option fst (cursor_out (ast_of_tree tr) c)
           = Some (find (\<lambda>q. validInNode (ast_of_tree tr) (Some q)) (nodes_before tr p))"
  using findSiblingOrParent_terminates [OF assms(1)] lastSibling_terminates [OF assms(1)]
    getRightMostChild_terminates [OF assms(1)]
    getNextNode_terminates [OF assms(1), of isValid]
    getPreviousNode_terminates [OF assms(1), of isValid]
  by (simp add: cursor_next_tree [OF assms] cursor_prev_tree [OF assms]
      cursor_in_tree_eq [OF assms] cursor_out_tree [OF assms] Let_def)

theorem navigation_terminates_witness:
  "is_path demo_tree [0,0,1] \<and> curNode \<lparr>curNode = Some [0,0,1]\<rparr> = Some [0,0,1]
   \<and> findSiblingOrParent (ast_of_tree demo_tree) (Some [0,0,1]) = Some (Some [0,1])
   \<and> (\<exists>r. getNextNode (ast_of_tree demo_tree) (\<lambda>n. False) (Some [0,0,1]) = Some r)
   \<and> (\<exists>r. getPreviousNode (ast_of_tree demo_tree) (\<lambda>n. False) (Some [0,0,1]) = Some r)
   \<and> map_option fst (cursor_next (ast_of_tree demo_tree) \<lparr>curNode = Some [0,0,1]\<rparr>)
       = Some (Some [0,1])
   \<and> map_option fst (cursor_prev (ast_of_tree demo_tree) \<lparr>curNode = Some [0,0,1]\<rparr>)
       = Some (Some [0,0])"
proof -
  have h: "is_path demo_tree [0,0,1]" by code_simp
  have c: "curNode \<lparr>curNode = Some [0,0,1]\<rparr> = Some [0,0,1]" by simp
  have e1: "findSiblingOrParent (ast_of_tree demo_tree) (Some [0,0,1]) = Some (Some [0,1])"
    by code_simp
  have e2: "map_option fst (cursor_next (ast_of_tree demo_tree) \<lparr>curNode = Some [0,0,1]\<rparr>)
       = Some (Some [0,1])"
    by code_simp
  have e3: "map_option fst (cursor_prev (ast_of_tree demo_tree) \<lparr>curNode = Some [0,0,1]\<rparr>)
       = Some (Some [0,0])"
    by code_simp
  from navigation_terminates [OF h c, of "\<lambda>n. False"] e1 e2 e3 h show ?thesis by auto
qed

end
